theory Spec2Isabelle
  imports Complex_Main
begin

section \<open>Data model of \<open>lib/trust.js\<close>\<close>

text \<open>
  Public keys and raw links are Node \<open>Buffer\<close>s, modelled as byte strings. The source keys
  its \<open>Map\<close>s and its cache by \<open>buf.toString('hex')\<close>; hex encoding is injective, so the
  model keys them by the buffer itself. Callbacks are identified by a number.
\<close>

type_synonym buffer = string
type_synonym callback = nat

subsection \<open>JavaScript numbers\<close>

text \<open>
  The \<open>expiration\<close> of a decoded link is a JavaScript number, that is a double: a real
  (rounding is not modelled), an infinity or \<open>NaN\<close>. The clock \<open>Date.now() / 1000\<close> is
  always a real. \<open><=\<close> and \<open>>\<close> are false whenever an operand is \<open>NaN\<close>, and
  \<open>Math.min\<close> is \<open>NaN\<close> whenever an argument is.
\<close>

datatype number = Num real | Infinity | MinusInfinity | NaN

fun js_le :: "number \<Rightarrow> number \<Rightarrow> bool" where
  "js_le NaN b = False"
| "js_le a NaN = False"
| "js_le MinusInfinity b = True"
| "js_le a Infinity = True"
| "js_le (Num a) (Num b) = (a \<le> b)"
| "js_le a b = False"

fun js_lt :: "number \<Rightarrow> number \<Rightarrow> bool" where
  "js_lt NaN b = False"
| "js_lt a NaN = False"
| "js_lt a MinusInfinity = False"
| "js_lt Infinity b = False"
| "js_lt (Num a) (Num b) = (a < b)"
| "js_lt a b = True"

definition js_gt :: "number \<Rightarrow> number \<Rightarrow> bool" where
  "js_gt a b = js_lt b a"

definition Math_min :: "number \<Rightarrow> number \<Rightarrow> number" where
  "Math_min a b = (if a = NaN \<or> b = NaN then NaN else if js_le a b then a else b)"

subsection \<open>Objects\<close>

text \<open>What \<open>parseLink\<close> of the external codec returns for a raw link.\<close>

record link =
  publicKey :: buffer
  expiration :: number

text \<open>The object \<open>{ link, raw }\<close> stored by \<open>TrustNode.addChild\<close>.\<close>

record child =
  link :: link
  raw :: buffer

text \<open>The item \<open>{ node, expiration, chain }\<close> of the search in \<open>getChain\<close>. The expiration
  of the first item is \<open>Infinity\<close>. A node object is identified by its key in \<open>_graph\<close>:
  a node is created once per key and never replaced.\<close>

record item =
  item_node :: buffer
  item_expiration :: number
  item_chain :: "buffer list"

text \<open>The cache value \<open>{ expiration, chain }\<close>.\<close>

record cached =
  cached_expiration :: number
  cached_chain :: "buffer list"

datatype error =
  MalformedLink | NoTrustPath | AssertionError | NotFound | RouteExpired | RouteLengthExceeded

text \<open>A call scheduled with \<open>process.nextTick(callback, err, chain)\<close>.\<close>

datatype call = Call callback "error option" "buffer list option"

text \<open>Storage operations issued to the key-value store whose completion callback has not
  run yet: \<open>db.put(LINK_PREFIX + raw, parent)\<close>, \<open>db.del(LINK_PREFIX + raw)\<close> and the
  read stream of \<open>_load\<close>.\<close>

datatype dbop = Put buffer buffer | Del buffer | ReadStream

text \<open>The fields of a \<open>Trust\<close> object. \<open>ticks\<close> is the list of calls handed to
  \<open>process.nextTick\<close>, \<open>closes\<close> the callbacks handed to \<open>db.close\<close>, both in
  order. \<open>queue\<close> holds the thunks \<open>() => this.getChain(root, callback)\<close> and
  \<open>dbQueue\<close> the thunks \<open>() => this.close(cb)\<close>, each by its free variables.\<close>

record trust =
  trust_publicKey :: buffer
  graph :: "(buffer \<times> (buffer \<times> child) list) list"
  lru :: "(buffer \<times> cached) list"
  ready :: bool
  queue :: "(buffer \<times> callback) list"
  dbUsed :: int
  dbQueue :: "callback list"
  inflight :: "dbop list"
  ticks :: "call list"
  closes :: "callback list"

subsection \<open>JavaScript \<open>Map\<close>\<close>

text \<open>A \<open>Map\<close> iterates in insertion order; \<open>set\<close> on a present key keeps its position
  and replaces the value, on an absent key it appends.\<close>

fun Map_set :: "'k \<Rightarrow> 'v \<Rightarrow> ('k \<times> 'v) list \<Rightarrow> ('k \<times> 'v) list" where
  "Map_set k v [] = [(k, v)]"
| "Map_set k v ((k', v') # m) = (if k' = k then (k, v) # m else (k', v') # Map_set k v m)"

definition Map_delete :: "'k \<Rightarrow> ('k \<times> 'v) list \<Rightarrow> ('k \<times> 'v) list" where
  "Map_delete k m = filter (\<lambda>e. fst e \<noteq> k) m"

definition Map_get :: "('k \<times> 'v) list \<Rightarrow> 'k \<Rightarrow> 'v option" where
  "Map_get m k = map_of m k"

definition Map_has :: "('k \<times> 'v) list \<Rightarrow> 'k \<Rightarrow> bool" where
  "Map_has m k = (Map_get m k \<noteq> None)"

subsection \<open>The cache\<close>

text \<open>Modelled from the spec: the \<open>lru\<close> package is not part of the sources. The spec
  describes a bounded least-recently-used cache of fixed capacity keyed by the queried
  root. The most recently used entry is first; \<open>get\<close> promotes the entry it finds,
  \<open>set\<close> drops the least recently used entries beyond the capacity.\<close>

definition LRU_SIZE :: nat where
  "LRU_SIZE = 128"

definition lru_get :: "buffer \<Rightarrow> (buffer \<times> 'v) list \<Rightarrow> 'v option \<times> (buffer \<times> 'v) list" where
  "lru_get k c = (case map_of c k of
      None \<Rightarrow> (None, c)
    | Some v \<Rightarrow> (Some v, (k, v) # filter (\<lambda>e. fst e \<noteq> k) c))"

definition lru_set :: "buffer \<Rightarrow> 'v \<Rightarrow> (buffer \<times> 'v) list \<Rightarrow> (buffer \<times> 'v) list" where
  "lru_set k v c = take LRU_SIZE ((k, v) # filter (\<lambda>e. fst e \<noteq> k) c)"

definition lru_remove :: "buffer \<Rightarrow> (buffer \<times> 'v) list \<Rightarrow> (buffer \<times> 'v) list" where
  "lru_remove k c = filter (\<lambda>e. fst e \<noteq> k) c"

section \<open>The operations of \<open>lib/trust.js\<close>\<close>

subsection \<open>The storage barrier\<close>

definition useDB :: "trust \<Rightarrow> trust" where
  "useDB s = s\<lparr>dbUsed := dbUsed s + 1\<rparr>"

text \<open>\<open>close\<close>: deferred while \<open>_dbUsed\<close> is not zero, else handed to the store.\<close>

definition close :: "callback \<Rightarrow> trust \<Rightarrow> trust" where
  "close cb s =
     (if dbUsed s \<noteq> 0 then s\<lparr>dbQueue := dbQueue s @ [cb]\<rparr>
      else s\<lparr>closes := closes s @ [cb]\<rparr>)"

text \<open>\<open>_freeDB\<close>: the result carries the \<open>AssertionError\<close> when the assertion fails,
  with the state as the throw leaves it.\<close>

definition freeDB :: "trust \<Rightarrow> error option \<times> trust" where
  "freeDB s =
     (let s1 = s\<lparr>dbUsed := dbUsed s - 1\<rparr> in
      if \<not> (dbUsed s1 \<ge> 0) then (Some AssertionError, s1)
      else if dbUsed s1 \<noteq> 0 then (None, s1)
      else (None, fold close (dbQueue s1) (s1\<lparr>dbQueue := []\<rparr>)))"

definition db_put :: "buffer \<Rightarrow> buffer \<Rightarrow> trust \<Rightarrow> trust" where
  "db_put r parent s = s\<lparr>inflight := inflight s @ [Put r parent]\<rparr>"

definition db_del :: "buffer \<Rightarrow> trust \<Rightarrow> trust" where
  "db_del r s = s\<lparr>inflight := inflight s @ [Del r]\<rparr>"

subsection \<open>Adding links\<close>

text \<open>\<open>TrustNode.addChild\<close> and \<open>TrustNode.removeChild\<close>, on the children of a node.\<close>

definition addChild :: "child \<Rightarrow> (buffer \<times> child) list \<Rightarrow> (buffer \<times> child) list" where
  "addChild c children = Map_set (publicKey (link c)) c children"

definition removeChild :: "buffer \<Rightarrow> (buffer \<times> child) list \<Rightarrow> (buffer \<times> child) list" where
  "removeChild key children = Map_delete key children"

text \<open>\<open>_addMemLink\<close> once the link is decoded: the node of the parent is fetched or
  created, and the child stored in it.\<close>

definition addMemLink_decoded :: "buffer \<Rightarrow> buffer \<Rightarrow> link \<Rightarrow> trust \<Rightarrow> trust" where
  "addMemLink_decoded parent r l s =
     (let node = (case Map_get (graph s) parent of Some n \<Rightarrow> n | None \<Rightarrow> [])
      in s\<lparr>graph := Map_set parent (addChild \<lparr>link = l, raw = r\<rparr> node) (graph s)\<rparr>)"

text \<open>\<open>_addMemLink\<close>: \<open>parseLink\<close> is the codec's decoder, \<open>None\<close> when it fails; the
  failure is an exception thrown before the index is touched.\<close>

definition addMemLink ::
  "(buffer \<Rightarrow> link option) \<Rightarrow> buffer \<Rightarrow> buffer \<Rightarrow> link option \<Rightarrow> trust \<Rightarrow> error option \<times> trust" where
  "addMemLink parseLink parent r lo s =
     (case lo of
        Some l \<Rightarrow> (None, addMemLink_decoded parent r l s)
      | None \<Rightarrow>
         (case parseLink r of
            None \<Rightarrow> (Some MalformedLink, s)
          | Some l \<Rightarrow> (None, addMemLink_decoded parent r l s)))"

text \<open>\<open>_addLink\<close>: a stale link is ignored; any other is put to the store and indexed.\<close>

definition addLink :: "real \<Rightarrow> buffer \<Rightarrow> buffer \<Rightarrow> link \<Rightarrow> trust \<Rightarrow> trust" where
  "addLink now parent r l s =
     (if js_le (expiration l) (Num now) then s
      else addMemLink_decoded parent r l (db_put r parent (useDB s)))"

text \<open>The \<open>forEach\<close> of \<open>addChain\<close>. Every \<open>_addLink\<close> reads the clock itself:
  \<open>clock i\<close> is the time read for the link at index \<open>i\<close>. A decoding failure throws out of
  the loop.\<close>

fun addChain_forEach ::
  "(buffer \<Rightarrow> link option) \<Rightarrow> (nat \<Rightarrow> real) \<Rightarrow> nat \<Rightarrow> buffer \<Rightarrow> buffer list \<Rightarrow> trust
     \<Rightarrow> error option \<times> trust" where
  "addChain_forEach parseLink clock i prev [] s = (None, s)"
| "addChain_forEach parseLink clock i prev (rawLink # rest) s =
     (case parseLink rawLink of
        None \<Rightarrow> (Some MalformedLink, s)
      | Some l \<Rightarrow>
          addChain_forEach parseLink clock (Suc i) (publicKey l) rest
            (addLink (clock i) prev rawLink l s))"

definition addChain ::
  "(buffer \<Rightarrow> link option) \<Rightarrow> (nat \<Rightarrow> real) \<Rightarrow> buffer \<Rightarrow> buffer list \<Rightarrow> callback option \<Rightarrow> trust
     \<Rightarrow> error option \<times> trust" where
  "addChain parseLink clock rootKey raws cb s =
     (if length raws = 0 then (None, s)
      else
        (case addChain_forEach parseLink clock 0 rootKey raws s of
           (Some e, s') \<Rightarrow> (Some e, s')
         | (None, s') \<Rightarrow>
            (case cb of
               Some c \<Rightarrow> (None, s'\<lparr>ticks := ticks s' @ [Call c None None]\<rparr>)
             | None \<Rightarrow> (None, s'))))"

subsection \<open>Resolving a chain\<close>

definition node_children :: "trust \<Rightarrow> buffer \<Rightarrow> (buffer \<times> child) list" where
  "node_children s n = (case Map_get (graph s) n of Some children \<Rightarrow> children | None \<Rightarrow> [])"

text \<open>\<open>item.node.removeChild(trusteeKey)\<close>, on the node object with key \<open>n\<close>.\<close>

definition node_removeChild :: "buffer \<Rightarrow> buffer \<Rightarrow> trust \<Rightarrow> trust" where
  "node_removeChild n key s =
     s\<lparr>graph := map (\<lambda>(k, children). if k = n then (k, removeChild key children) else (k, children))
                    (graph s)\<rparr>"

text \<open>
  The \<open>for\<close> loop over \<open>item.node.children.entries()\<close>. The loop deletes only the entry it
  is at, so it visits the entries the node had when the loop began, in order: the list
  argument. The array \<open>queue\<close> is used as a stack (\<open>push\<close> and \<open>pop\<close> at its end); the
  model keeps it with the end of the array first. \<open>M\<close> is \<open>constants.MAX_CHAIN_LENGTH\<close>, a
  constant of a package that is not part of the sources. The result is the chain of the
  \<open>return\<close> at a match, if any, with the stack and the state.
\<close>

fun for_children ::
  "nat \<Rightarrow> real \<Rightarrow> buffer \<Rightarrow> buffer set \<Rightarrow> item \<Rightarrow> (buffer \<times> child) list \<Rightarrow> item list \<Rightarrow> trust
     \<Rightarrow> buffer list option \<times> item list \<times> trust" where
  "for_children M now hexRoot visited it [] stk s = (None, stk, s)"
| "for_children M now hexRoot visited it ((trusteeKey, v) # rest) stk s =
     (if js_le (expiration (link v)) (Num now) then
        for_children M now hexRoot visited it rest stk
          (db_del (raw v) (useDB (node_removeChild (item_node it) trusteeKey s)))
      else
        (let chain = item_chain it @ [raw v];
             exp = Math_min (item_expiration it) (expiration (link v))
         in if trust_publicKey s = publicKey (link v) then
              (Some chain,
               stk,
               s\<lparr>lru := lru_set hexRoot \<lparr>cached_expiration = exp, cached_chain = chain\<rparr> (lru s)\<rparr>)
            else if \<not> Map_has (graph s) trusteeKey then
              for_children M now hexRoot visited it rest stk s
            else if trusteeKey \<in> visited then
              for_children M now hexRoot visited it rest stk s
            else if length chain \<ge> M then
              for_children M now hexRoot visited it rest stk s
            else
              for_children M now hexRoot visited it rest
                (\<lparr>item_node = trusteeKey, item_expiration = exp, item_chain = chain\<rparr> # stk) s))"

text \<open>The search only removes children of nodes: the keys of \<open>_graph\<close> stay, and every
  item it pushes is a node of the graph that has not been visited.\<close>

lemma node_removeChild_keys [simp]:
  "map fst (graph (node_removeChild n k s)) = map fst (graph s)"
  by (induction "graph s") (auto simp: node_removeChild_def split: prod.splits)

lemma graph_db_del_useDB [simp]:
  "graph (db_del r s) = graph s" "graph (useDB s) = graph s"
  by (simp_all add: db_del_def useDB_def)

lemma for_children_keys:
  "for_children M now h vis it cs stk s = (res, stk', s') \<Longrightarrow> map fst (graph s') = map fst (graph s)"
  apply (induction M now h vis it cs stk s rule: for_children.induct)
   apply (auto simp: Let_def  split: if_splits)
  done

lemma Map_has_keys: "Map_has m k \<longleftrightarrow> k \<in> set (map fst m)"
  by (simp add: Map_has_def Map_get_def map_of_eq_None_iff)

lemma for_children_stack:
  "for_children M now h vis it cs stk s = (None, stk', s') \<Longrightarrow>
     \<exists>new. stk' = new @ stk \<and> (\<forall>i \<in> set new. item_node i \<in> set (map fst (graph s)) \<and> item_node i \<notin> vis)"
proof (induction cs arbitrary: stk s)
  case Nil
  then show ?case by simp
next
  case (Cons e rest)
  obtain trusteeKey v where e: "e = (trusteeKey, v)" by (cases e)
  let ?chain = "item_chain it @ [raw v]"
  let ?exp = "Math_min (item_expiration it) (expiration (link v))"
  let ?new = "\<lparr>item_node = trusteeKey, item_expiration = ?exp, item_chain = ?chain\<rparr>"
  let ?s1 = "db_del (raw v) (useDB (node_removeChild (item_node it) trusteeKey s))"
  consider (expired) "for_children M now h vis it rest stk ?s1 = (None, stk', s')"
    | (skip) "for_children M now h vis it rest stk s = (None, stk', s')"
    | (push) "Map_has (graph s) trusteeKey" "trusteeKey \<notin> vis"
        "for_children M now h vis it rest (?new # stk) s = (None, stk', s')"
    using Cons.prems unfolding e by (simp add: Let_def split: if_splits)
  then show ?case
  proof cases
    case expired
    from Cons.IH[OF expired] show ?thesis by simp
  next
    case skip
    from Cons.IH[OF skip] show ?thesis .
  next
    case push
    from Cons.IH[OF push(3)]
    obtain new where new: "stk' = new @ ?new # stk"
      "\<forall>i \<in> set new. item_node i \<in> set (map fst (graph s)) \<and> item_node i \<notin> vis"
      by blast
    from push have "trusteeKey \<in> set (map fst (graph s))"
      by (simp add: Map_has_keys del: set_map)
    with new push(2) have "stk' = (new @ [?new]) @ stk \<and>
        (\<forall>i \<in> set (new @ [?new]). item_node i \<in> set (map fst (graph s)) \<and> item_node i \<notin> vis)"
      by simp
    then show ?thesis by blast
  qed
qed

definition search_measure :: "buffer set \<Rightarrow> item list \<Rightarrow> trust \<Rightarrow> nat \<times> nat" where
  "search_measure visited stk s =
     (card (set (map fst (graph s)) - visited),
      length (filter (\<lambda>i. item_node i \<in> visited \<or> item_node i \<notin> set (map fst (graph s))) stk))"

lemma search_measure_decreases:
  assumes run: "for_children M now h (insert (item_node it) vis) it cs stk s = (None, stk', s')"
  shows "(search_measure (insert (item_node it) vis) stk' s', search_measure vis (it # stk) s)
           \<in> less_than <*lex*> less_than"
proof -
  define n where "n = item_node it"
  define K where "K = set (map fst (graph s))"
  have keys: "set (map fst (graph s')) = K"
    using for_children_keys[OF run] by (simp only: K_def)
  have fin: "finite K" by (simp add: K_def)
  obtain new where new: "stk' = new @ stk"
    "\<forall>i \<in> set new. item_node i \<in> K \<and> item_node i \<notin> insert n vis"
    using for_children_stack[OF run] unfolding K_def n_def by blast
  have m': "search_measure (insert n vis) stk' s' =
      (card (K - insert n vis), length (filter (\<lambda>i. item_node i \<in> insert n vis \<or> item_node i \<notin> K) stk'))"
    unfolding search_measure_def keys ..
  have m: "search_measure vis (it # stk) s =
      (card (K - vis), length (filter (\<lambda>i. item_node i \<in> vis \<or> item_node i \<notin> K) (it # stk)))"
    unfolding search_measure_def K_def ..
  show ?thesis
  proof (cases "n \<in> K \<and> n \<notin> vis")
    case True
    have "K - insert n vis \<subset> K - vis" using True by blast
    then have "card (K - insert n vis) < card (K - vis)"
      using fin by (intro psubset_card_mono) simp_all
    then show ?thesis unfolding n_def[symmetric] m m' by simp
  next
    case False
    then have same: "K - insert n vis = K - vis" by blast
    have fnew: "filter (\<lambda>i. item_node i \<in> insert n vis \<or> item_node i \<notin> K) new = []"
      using new(2) by (auto simp: filter_empty_conv)
    have fold: "filter (\<lambda>i. item_node i \<in> insert n vis \<or> item_node i \<notin> K) stk
              = filter (\<lambda>i. item_node i \<in> vis \<or> item_node i \<notin> K) stk"
      using False by (intro filter_cong) auto
    have bad: "item_node it \<in> vis \<or> item_node it \<notin> K"
      using False by (auto simp: n_def)
    have "search_measure (insert n vis) stk' s' =
        (card (K - vis), length (filter (\<lambda>i. item_node i \<in> vis \<or> item_node i \<notin> K) stk))"
      using m' unfolding same new(1) by (simp add: fnew fold del: insert_iff)
    moreover have "search_measure vis (it # stk) s =
        (card (K - vis), Suc (length (filter (\<lambda>i. item_node i \<in> vis \<or> item_node i \<notin> K) stk)))"
      unfolding m using bad by auto
    ultimately show ?thesis unfolding n_def[symmetric] by simp
  qed
qed

text \<open>The \<open>while\<close> loop of \<open>getChain\<close>. It ends because a popped item either visits a
  new node, or is one of the items of the stack whose node was visited before, and those
  are never pushed.\<close>

function while_queue ::
  "nat \<Rightarrow> real \<Rightarrow> buffer \<Rightarrow> buffer set \<Rightarrow> item list \<Rightarrow> trust \<Rightarrow> buffer list option \<times> trust" where
  "while_queue M now hexRoot visited [] s = (None, s)"
| "while_queue M now hexRoot visited (it # stk) s =
     (case for_children M now hexRoot (insert (item_node it) visited) it
             (node_children s (item_node it)) stk s of
        (Some chain, stk', s') \<Rightarrow> (Some chain, s')
      | (None, stk', s') \<Rightarrow> while_queue M now hexRoot (insert (item_node it) visited) stk' s')"
  by pat_completeness auto
termination
  apply (relation "inv_image (less_than <*lex*> less_than)
                  (\<lambda>(M, now, h, vis, stk, s). search_measure vis stk s)")
   apply (simp add: wf_lex_prod)
  apply (clarsimp simp only: in_inv_image prod.case)
  apply (rule search_measure_decreases)
  apply (erule sym)
  done

text \<open>\<open>getChain\<close>, from the cache lookup on (the graph has the root).\<close>

definition getChain_resolve :: "nat \<Rightarrow> real \<Rightarrow> buffer \<Rightarrow> callback \<Rightarrow> trust \<Rightarrow> trust" where
  "getChain_resolve M now rootKey cb s =
     (case while_queue M now rootKey {}
             [\<lparr>item_node = rootKey, item_expiration = Infinity, item_chain = []\<rparr>] s of
        (Some chain, s') \<Rightarrow> s'\<lparr>ticks := ticks s' @ [Call cb None (Some chain)]\<rparr>
      | (None, s') \<Rightarrow> s'\<lparr>ticks := ticks s' @ [Call cb (Some NoTrustPath) None]\<rparr>)"

definition getChain :: "nat \<Rightarrow> real \<Rightarrow> buffer \<Rightarrow> callback \<Rightarrow> trust \<Rightarrow> trust" where
  "getChain M now rootKey cb s =
     (if rootKey = trust_publicKey s then s\<lparr>ticks := ticks s @ [Call cb None (Some [])]\<rparr>
      else if \<not> ready s then s\<lparr>queue := queue s @ [(rootKey, cb)]\<rparr>
      else if \<not> Map_has (graph s) rootKey then
        s\<lparr>ticks := ticks s @ [Call cb (Some NoTrustPath) None]\<rparr>
      else
        (case lru_get rootKey (lru s) of
           (Some c, lru1) \<Rightarrow>
             if js_gt (cached_expiration c) (Num now) then
               s\<lparr>lru := lru1, ticks := ticks s @ [Call cb None (Some (cached_chain c))]\<rparr>
             else getChain_resolve M now rootKey cb (s\<lparr>lru := lru_remove rootKey lru1\<rparr>)
         | (None, lru1) \<Rightarrow> getChain_resolve M now rootKey cb (s\<lparr>lru := lru1\<rparr>)))"

subsection \<open>Construction and the events of the store\<close>

text \<open>\<open>_load\<close> up to the creation of the read stream, and the constructor that calls it.\<close>

definition load :: "trust \<Rightarrow> trust" where
  "load s = (let s1 = useDB s in s1\<lparr>inflight := inflight s1 @ [ReadStream]\<rparr>)"

definition Trust :: "buffer \<Rightarrow> trust" where
  "Trust pk = load \<lparr>trust_publicKey = pk, graph = [], lru = [], ready = False, queue = [],
                    dbUsed = 0, dbQueue = [], inflight = [], ticks = [], closes = []\<rparr>"

text \<open>The store completes an operation: its callback runs once, and it is no more in
  flight.\<close>

definition completed :: "dbop \<Rightarrow> trust \<Rightarrow> trust" where
  "completed op s = s\<lparr>inflight := remove1 op (inflight s)\<rparr>"

text \<open>The \<open>'data'\<close> handler of the read stream: the key holds the raw link, the value
  the parent.\<close>

definition on_data ::
  "(buffer \<Rightarrow> link option) \<Rightarrow> buffer \<Rightarrow> buffer \<Rightarrow> trust \<Rightarrow> error option \<times> trust" where
  "on_data parseLink r parent s = addMemLink parseLink parent r None s"

text \<open>The loop over the pending queue in the \<open>'end'\<close> handler; \<open>clock i\<close> is the time
  read by the query at index \<open>i\<close>.\<close>

fun replay :: "nat \<Rightarrow> (nat \<Rightarrow> real) \<Rightarrow> nat \<Rightarrow> (buffer \<times> callback) list \<Rightarrow> trust \<Rightarrow> trust" where
  "replay M clock i [] s = s"
| "replay M clock i ((rootKey, cb) # q) s =
     replay M clock (Suc i) q (getChain M (clock i) rootKey cb s)"

definition on_end :: "nat \<Rightarrow> (nat \<Rightarrow> real) \<Rightarrow> trust \<Rightarrow> error option \<times> trust" where
  "on_end M clock s =
     (case freeDB s of
        (Some e, s1) \<Rightarrow> (Some e, s1)
      | (None, s1) \<Rightarrow> (None, replay M clock 0 (queue s1) (s1\<lparr>ready := True, queue := []\<rparr>)))"

text \<open>The \<open>'error'\<close> handler of the read stream and the callbacks of \<open>db.put\<close> and
  \<open>db.del\<close>: each calls \<open>_freeDB\<close> and logs.\<close>

definition on_error :: "trust \<Rightarrow> error option \<times> trust" where
  "on_error s = freeDB s"

definition on_put :: "trust \<Rightarrow> error option \<times> trust" where
  "on_put s = freeDB s"

definition on_del :: "trust \<Rightarrow> error option \<times> trust" where
  "on_del s = freeDB s"

text \<open>
  The states an engine can be in: after construction, after any call of its public
  methods, and after any completion of a storage operation that is in flight (the read
  stream delivers data while it is in flight and then ends or fails, once). The states
  between two replayed queries of the \<open>'end'\<close> handler are included.
\<close>

inductive reachable :: "(buffer \<Rightarrow> link option) \<Rightarrow> nat \<Rightarrow> trust \<Rightarrow> bool"
  for parseLink :: "buffer \<Rightarrow> link option" and M :: nat where
  r_new: "reachable parseLink M (Trust pk)"
| r_addChain: "reachable parseLink M s \<Longrightarrow>
     reachable parseLink M (snd (addChain parseLink clock rootKey raws cb s))"
| r_getChain: "reachable parseLink M s \<Longrightarrow> reachable parseLink M (getChain M now rootKey cb s)"
| r_close: "reachable parseLink M s \<Longrightarrow> reachable parseLink M (close cb s)"
| r_data: "reachable parseLink M s \<Longrightarrow> ReadStream \<in> set (inflight s) \<Longrightarrow>
     reachable parseLink M (snd (on_data parseLink r parent s))"
| r_end: "reachable parseLink M s \<Longrightarrow> ReadStream \<in> set (inflight s) \<Longrightarrow>
     freeDB (completed ReadStream s) = (None, s1) \<Longrightarrow>
     reachable parseLink M (replay M clock 0 (take j (queue s1)) (s1\<lparr>ready := True, queue := []\<rparr>))"
| r_error: "reachable parseLink M s \<Longrightarrow> ReadStream \<in> set (inflight s) \<Longrightarrow>
     reachable parseLink M (snd (on_error (completed ReadStream s)))"
| r_put: "reachable parseLink M s \<Longrightarrow> Put r parent \<in> set (inflight s) \<Longrightarrow>
     reachable parseLink M (snd (on_put (completed (Put r parent) s)))"
| r_del: "reachable parseLink M s \<Longrightarrow> Del r \<in> set (inflight s) \<Longrightarrow>
     reachable parseLink M (snd (on_del (completed (Del r) s)))"

section \<open>The link store of \<open>part_000\<close>\<close>

text \<open>
  The other revision of the engine among the sources keeps one link per signer, in the
  key-value store and in the cache, with a depth: the JSON value \<open>{ depth, raw }\<close> under
  the key of the signer. Its storage calls are asynchronous and chained by callbacks;
  the model runs them in the order of the chain and takes a \<open>put\<close> to succeed.
\<close>

record stored =
  stored_depth :: int
  stored_raw :: buffer

text \<open>The object \<open>{ depth, link, raw }\<close> that \<open>_getLink\<close> hands to its callback.\<close>

record found =
  found_depth :: int
  found_link :: link
  found_raw :: buffer

text \<open>The engine of \<open>part_000\<close>: its key, its cache, the store, and the calls of the
  callbacks handed to \<open>addChain\<close> and \<open>getChain\<close>, in order.\<close>

record trust0 =
  trust0_publicKey :: buffer
  trust0_lru :: "(buffer \<times> stored) list"
  trust0_db :: "(buffer \<times> stored) list"
  trust0_calls :: "call list"

text \<open>\<open>_getLink\<close>: the cache first, then the store. \<open>Inl NotFound\<close> is the error the store
  passes to the callback for a missing key; \<open>Inl MalformedLink\<close> is the exception of the
  decoder, thrown inside \<open>onResult\<close>.\<close>

definition getLink_onResult :: "(buffer \<Rightarrow> link option) \<Rightarrow> stored \<Rightarrow> error + found" where
  "getLink_onResult parseLink v =
     (case parseLink (stored_raw v) of
        None \<Rightarrow> Inl MalformedLink
      | Some l \<Rightarrow> Inr \<lparr>found_depth = stored_depth v, found_link = l, found_raw = stored_raw v\<rparr>)"

definition getLink :: "(buffer \<Rightarrow> link option) \<Rightarrow> buffer \<Rightarrow> trust0 \<Rightarrow> (error + found) \<times> trust0" where
  "getLink parseLink signedBy s =
     (case lru_get signedBy (trust0_lru s) of
        (Some v, c) \<Rightarrow> (getLink_onResult parseLink v, s\<lparr>trust0_lru := c\<rparr>)
      | (None, c) \<Rightarrow>
          (case Map_get (trust0_db s) signedBy of
             None \<Rightarrow> (Inl NotFound, s\<lparr>trust0_lru := c\<rparr>)
           | Some v \<Rightarrow> (getLink_onResult parseLink v, s\<lparr>trust0_lru := c\<rparr>)))"

definition putLink :: "buffer \<Rightarrow> buffer \<Rightarrow> int \<Rightarrow> trust0 \<Rightarrow> trust0" where
  "putLink signedBy r d s =
     (let v = \<lparr>stored_depth = d, stored_raw = r\<rparr>
      in s\<lparr>trust0_lru := lru_set signedBy v (trust0_lru s),
           trust0_db := Map_set signedBy v (trust0_db s)\<rparr>)"

text \<open>A JavaScript value that is a number or \<open>undefined\<close>, and \<open>>=\<close> on such values:
  \<open>undefined\<close> converts to \<open>NaN\<close>, and a comparison with \<open>NaN\<close> is false.\<close>

datatype jsval = Undefined | Number number

fun ToNumber :: "jsval \<Rightarrow> number" where
  "ToNumber Undefined = NaN"
| "ToNumber (Number n) = n"

definition js_ge :: "jsval \<Rightarrow> jsval \<Rightarrow> bool" where
  "js_ge a b = js_le (ToNumber b) (ToNumber a)"

text \<open>\<open>old.expiration\<close> in \<open>_addLink\<close>: \<open>old\<close> is the object \<open>{ depth, link, raw }\<close>, which
  has no property \<open>expiration\<close> (the expiration is \<open>old.link.expiration\<close>).\<close>

definition old_expiration :: "found \<Rightarrow> jsval" where
  "old_expiration old = Undefined"

text \<open>\<open>_addLink\<close> of \<open>part_000\<close>. The result carries the error passed to the callback
  or thrown, if any.\<close>

definition addLink0 ::
  "(buffer \<Rightarrow> link option) \<Rightarrow> buffer \<Rightarrow> link \<Rightarrow> buffer \<Rightarrow> trust0 \<Rightarrow> error option \<times> trust0" where
  "addLink0 parseLink signedBy l r s =
     (let signsUs = (publicKey l = trust0_publicKey s) in
      case getLink parseLink signedBy s of
        (Inl MalformedLink, s1) \<Rightarrow> (Some MalformedLink, s1)
      | (Inl e, s1) \<Rightarrow> (None, putLink signedBy r (if signsUs then 0 else - 1) s1)
      | (Inr old, s1) \<Rightarrow>
          if found_raw old = r then (None, s1)
          else if publicKey (found_link old) = publicKey l then
            (if js_ge (old_expiration old) (Number (expiration l)) then (None, s1)
             else (None, putLink signedBy r (found_depth old) s1))
          else if signsUs then (None, putLink signedBy r 0 s1)
          else
            (case getLink parseLink (publicKey l) s1 of
               (Inl e, s2) \<Rightarrow> (Some e, s2)
             | (Inr next, s2) \<Rightarrow>
                 if found_depth next < 0
                    \<or> (found_depth old \<ge> 0 \<and> found_depth old \<le> found_depth next + 1)
                 then (None, s2)
                 else (None, putLink signedBy r (found_depth next + 1) s2)))"

text \<open>\<open>addChain\<close> of \<open>part_000\<close>. Its \<open>raw.map\<close> decodes every link of the batch, with
  its signer, before any link is stored; a decoding failure throws there.\<close>

fun addChain0_map ::
  "(buffer \<Rightarrow> link option) \<Rightarrow> buffer \<Rightarrow> buffer list \<Rightarrow> error + (buffer \<times> buffer \<times> link) list" where
  "addChain0_map parseLink prev [] = Inr []"
| "addChain0_map parseLink prev (r # rest) =
     (case parseLink r of
        None \<Rightarrow> Inl MalformedLink
      | Some l \<Rightarrow>
          (case addChain0_map parseLink (publicKey l) rest of
             Inl e \<Rightarrow> Inl e
           | Inr ls \<Rightarrow> Inr ((r, prev, l) # ls)))"

text \<open>\<open>async.forEachSeries\<close> over the links: one \<open>_addLink\<close> after the other, stopping at
  the first error.\<close>

fun addChain0_forEachSeries ::
  "(buffer \<Rightarrow> link option) \<Rightarrow> (buffer \<times> buffer \<times> link) list \<Rightarrow> trust0 \<Rightarrow> error option \<times> trust0" where
  "addChain0_forEachSeries parseLink [] s = (None, s)"
| "addChain0_forEachSeries parseLink ((r, signedBy, l) # rest) s =
     (case addLink0 parseLink signedBy l r s of
        (Some e, s') \<Rightarrow> (Some e, s')
      | (None, s') \<Rightarrow> addChain0_forEachSeries parseLink rest s')"

text \<open>The links are stored from the last to the first. The first component of the result
  is the exception thrown, if any; an error of the store goes to the callback.\<close>

definition addChain0 ::
  "(buffer \<Rightarrow> link option) \<Rightarrow> buffer \<Rightarrow> buffer list \<Rightarrow> callback option \<Rightarrow> trust0
     \<Rightarrow> error option \<times> trust0" where
  "addChain0 parseLink rootKey raws cb s =
     (if length raws = 0 then (None, s)
      else
        (case addChain0_map parseLink rootKey raws of
           Inl e \<Rightarrow> (Some e, s)
         | Inr links \<Rightarrow>
            (case addChain0_forEachSeries parseLink (rev links) s of
               (Some MalformedLink, s') \<Rightarrow> (Some MalformedLink, s')
             | (e, s') \<Rightarrow>
                (case cb of
                   Some c \<Rightarrow> (None, s'\<lparr>trust0_calls := trust0_calls s' @ [Call c e None]\<rparr>)
                 | None \<Rightarrow> (None, s')))))"

text \<open>\<open>_getChain\<close> of \<open>part_000\<close>, which follows the one stored link of each signer. It
  calls itself from the callback of \<open>_getLink\<close> until it reaches the local key, an
  expired link, a missing link or \<open>MAX_CHAIN_LENGTH\<close> links; the model bounds the number
  of calls by a fuel and answers \<open>None\<close> when the fuel is used up. The call that has
  \<open>prev\<close> of length \<open>k\<close> reads the time \<open>clock k\<close>.\<close>

fun getChain0_rec ::
  "nat \<Rightarrow> (buffer \<Rightarrow> link option) \<Rightarrow> nat \<Rightarrow> (nat \<Rightarrow> real) \<Rightarrow> buffer list \<Rightarrow> buffer \<Rightarrow> trust0
     \<Rightarrow> (error + buffer list) option \<times> trust0" where
  "getChain0_rec 0 parseLink M clock prev signedBy s = (None, s)"
| "getChain0_rec (Suc fuel) parseLink M clock prev signedBy s =
     (case getLink parseLink signedBy s of
        (Inl e, s1) \<Rightarrow> (Some (Inl e), s1)
      | (Inr res, s1) \<Rightarrow>
          (let next = prev @ [found_raw res]; l = found_link res
           in if js_le (expiration l) (Num (clock (length prev))) then (Some (Inl RouteExpired), s1)
              else if publicKey l = trust0_publicKey s1 then (Some (Inr next), s1)
              else if length next = M then (Some (Inl RouteLengthExceeded), s1)
              else getChain0_rec fuel parseLink M clock next (publicKey l) s1))"

text \<open>\<open>getChain\<close> of \<open>part_000\<close>; \<open>None\<close> when the fuel is used up. An exception of the
  decoder is thrown past the callback.\<close>

definition getChain0 ::
  "nat \<Rightarrow> (buffer \<Rightarrow> link option) \<Rightarrow> nat \<Rightarrow> (nat \<Rightarrow> real) \<Rightarrow> buffer \<Rightarrow> callback \<Rightarrow> trust0
     \<Rightarrow> (error option \<times> trust0) option" where
  "getChain0 fuel parseLink M clock rootKey cb s =
     (if rootKey = trust0_publicKey s then
        Some (None, s\<lparr>trust0_calls := trust0_calls s @ [Call cb None (Some [])]\<rparr>)
      else
        (case getChain0_rec fuel parseLink M clock [] rootKey s of
           (None, s') \<Rightarrow> None
         | (Some (Inl MalformedLink), s') \<Rightarrow> Some (Some MalformedLink, s')
         | (Some (Inl e), s') \<Rightarrow>
             Some (None, s'\<lparr>trust0_calls := trust0_calls s' @ [Call cb (Some e) None]\<rparr>)
         | (Some (Inr chain), s') \<Rightarrow>
             Some (None, s'\<lparr>trust0_calls := trust0_calls s' @ [Call cb None (Some chain)]\<rparr>)))"

section \<open>A codec and engines for examples\<close>

text \<open>A decoder that knows a few raw links, for evaluating the engine on concrete
  inputs; every other byte string fails to decode.\<close>

definition parse_demo :: "buffer \<Rightarrow> link option" where
  "parse_demo = map_of
     [(''R>A'', \<lparr>publicKey = ''A'', expiration = Num 2000\<rparr>),
      (''A>B'', \<lparr>publicKey = ''B'', expiration = Num 2000\<rparr>),
      (''B>L'', \<lparr>publicKey = ''L'', expiration = Num 2000\<rparr>),
      (''R>C'', \<lparr>publicKey = ''C'', expiration = Num 2000\<rparr>),
      (''C>L'', \<lparr>publicKey = ''L'', expiration = Num 2000\<rparr>),
      (''R>L'', \<lparr>publicKey = ''L'', expiration = Num 2000\<rparr>),
      (''R>A early'', \<lparr>publicKey = ''A'', expiration = Num 1500\<rparr>),
      (''R>A twin'', \<lparr>publicKey = ''A'', expiration = Num 2000\<rparr>),
      (''R>L stale'', \<lparr>publicKey = ''L'', expiration = Num 900\<rparr>),
      (''R>L nan'', \<lparr>publicKey = ''L'', expiration = NaN\<rparr>)]"

text \<open>An engine for the identity \<open>L\<close> whose store was empty, once loading has ended; and
  that engine after the chain from \<open>R\<close> through \<open>C\<close> has been added at time 1000.\<close>

definition demo_ready :: trust where
  "demo_ready = snd (on_end 5 (\<lambda>i. 1000) (completed ReadStream (Trust ''L'')))"

definition demo_short :: trust where
  "demo_short = snd (addChain parse_demo (\<lambda>i. 1000) ''R'' [''R>C'', ''C>L''] None demo_ready)"

text \<open>The store of \<open>part_000\<close> and the index of \<open>lib/trust.js\<close>, each holding the one
  link \<open>R>A\<close>, which expires at 2000.\<close>

definition demo_store :: trust0 where
  "demo_store = snd (addLink0 parse_demo ''R'' \<lparr>publicKey = ''A'', expiration = Num 2000\<rparr> ''R>A''
                      \<lparr>trust0_publicKey = ''L'', trust0_lru = [], trust0_db = [], trust0_calls = []\<rparr>)"

definition demo_index :: trust where
  "demo_index = snd (addChain parse_demo (\<lambda>i. 1000) ''R'' [''R>A''] None demo_ready)"

section \<open>Invariants and notions used in the properties\<close>

text \<open>The counter equals the number of storage operations in flight.\<close>

definition balanced :: "trust \<Rightarrow> bool" where
  "balanced s = (dbUsed s = int (length (inflight s)))"

text \<open>A chain all of whose links decode and have an expiration greater than \<open>t\<close>; a
  chain all of whose links decode and pass the test of the code at \<open>t\<close>, which is that
  \<open>expiration <= t\<close> is false; and a chain all of whose links decode and expire at \<open>e\<close> or
  later, unless \<open>e\<close> is \<open>NaN\<close>.\<close>

definition unexpired :: "(buffer \<Rightarrow> link option) \<Rightarrow> real \<Rightarrow> buffer list \<Rightarrow> bool" where
  "unexpired parseLink t chain =
     list_all (\<lambda>r. case parseLink r of None \<Rightarrow> False | Some l \<Rightarrow> js_gt (expiration l) (Num t))
       chain"

definition not_stale :: "(buffer \<Rightarrow> link option) \<Rightarrow> real \<Rightarrow> buffer list \<Rightarrow> bool" where
  "not_stale parseLink t chain =
     list_all (\<lambda>r. case parseLink r of None \<Rightarrow> False | Some l \<Rightarrow> \<not> js_le (expiration l) (Num t))
       chain"

definition lasts :: "(buffer \<Rightarrow> link option) \<Rightarrow> number \<Rightarrow> buffer list \<Rightarrow> bool" where
  "lasts parseLink e chain =
     (e = NaN \<or>
      list_all (\<lambda>r. case parseLink r of None \<Rightarrow> False | Some l \<Rightarrow> js_le e (expiration l)) chain)"

text \<open>The invariants of the index and of the cache: a stored child holds the decoding
  of its raw link, and a cached chain lasts as long as the expiration cached with it.\<close>

definition decoded :: "(buffer \<Rightarrow> link option) \<Rightarrow> (buffer \<times> child) list \<Rightarrow> bool" where
  "decoded parseLink children = list_all (\<lambda>(k, c). parseLink (raw c) = Some (link c)) children"

definition graph_ok :: "(buffer \<Rightarrow> link option) \<Rightarrow> trust \<Rightarrow> bool" where
  "graph_ok parseLink s = list_all (\<lambda>(k, children). decoded parseLink children) (graph s)"

definition cache_ok :: "(buffer \<Rightarrow> link option) \<Rightarrow> (buffer \<times> cached) list \<Rightarrow> bool" where
  "cache_ok parseLink c =
     list_all (\<lambda>(k, v). lasts parseLink (cached_expiration v) (cached_chain v)) c"

text \<open>The invariant of a search item: its chain passes the test of the code now and
  lasts as long as the expiration the item carries.\<close>

definition item_ok :: "(buffer \<Rightarrow> link option) \<Rightarrow> real \<Rightarrow> item \<Rightarrow> bool" where
  "item_ok parseLink now it =
     (not_stale parseLink now (item_chain it) \<and> lasts parseLink (item_expiration it) (item_chain it))"

text \<open>The search leaves the scheduled calls, the pending queue and the close queue
  alone, and begins no read stream.\<close>

definition same_frame :: "trust \<Rightarrow> trust \<Rightarrow> bool" where
  "same_frame s s' =
     (ticks s' = ticks s \<and> ready s' = ready s \<and> queue s' = queue s \<and>
      trust_publicKey s' = trust_publicKey s \<and> closes s' = closes s \<and> dbQueue s' = dbQueue s \<and>
      filter (\<lambda>op. op = ReadStream) (inflight s') = filter (\<lambda>op. op = ReadStream) (inflight s))"

text \<open>The index and the cache of an engine both satisfy their invariant.\<close>

definition sound :: "(buffer \<Rightarrow> link option) \<Rightarrow> trust \<Rightarrow> bool" where
  "sound P s = (graph_ok P s \<and> cache_ok P (lru s))"

text \<open>The invariants of the search and of the cache for the length of chains: a search
  item carries fewer than \<open>M\<close> links, a cached chain at most \<open>M\<close>.\<close>

definition item_short :: "nat \<Rightarrow> item \<Rightarrow> bool" where
  "item_short M it = (length (item_chain it) < M)"

definition cache_short :: "nat \<Rightarrow> (buffer \<times> cached) list \<Rightarrow> bool" where
  "cache_short M c = list_all (\<lambda>(k, v). length (cached_chain v) \<le> M) c"

text \<open>The callback a scheduled call is for.\<close>

fun call_callback :: "call \<Rightarrow> callback" where
  "call_callback (Call cb e c) = cb"

text \<open>While the engine is ready no read stream is in flight; before, at most one is.\<close>

definition loaded :: "trust \<Rightarrow> bool" where
  "loaded s =
     (if ready s then filter (\<lambda>op. op = ReadStream) (inflight s) = []
      else length (filter (\<lambda>op. op = ReadStream) (inflight s)) \<le> 1)"

text \<open>Operations that neither change \<open>_ready\<close> nor begin or end a read stream.\<close>

definition same_load :: "trust \<Rightarrow> trust \<Rightarrow> bool" where
  "same_load s s' =
     (ready s' = ready s \<and>
      filter (\<lambda>op. op = ReadStream) (inflight s') = filter (\<lambda>op. op = ReadStream) (inflight s))"

section \<open>Properties\<close>

subsection \<open>The example engine\<close>

lemma demo_ready_eq:
  "demo_ready = \<lparr>trust_publicKey = ''L'', graph = [], lru = [], ready = True, queue = [],
                  dbUsed = 0, dbQueue = [], inflight = [], ticks = [], closes = []\<rparr>"
  by (simp add: demo_ready_def on_end_def completed_def Trust_def load_def useDB_def freeDB_def)

lemma reachable_demo_ready: "reachable P M demo_ready"
proof -
  have f: "freeDB (completed ReadStream (Trust ''L'')) =
      (None, \<lparr>trust_publicKey = ''L'', graph = [], lru = [], ready = False, queue = [],
                  dbUsed = 0, dbQueue = [], inflight = [], ticks = [], closes = []\<rparr>)"
    by (simp add: completed_def Trust_def load_def useDB_def freeDB_def)
  have "ReadStream \<in> set (inflight (Trust ''L''))"
    by (simp add: Trust_def load_def useDB_def)
  from r_end[OF r_new this f, of P M "\<lambda>i. 1000" 0] show ?thesis
    by (simp add: demo_ready_eq)
qed

lemmas eval_defs = addChain_def parse_demo_def addLink_def db_put_def useDB_def db_del_def
  addMemLink_decoded_def Map_get_def Map_has_def addChild_def getChain_def getChain_resolve_def
  lru_get_def lru_set_def lru_remove_def LRU_SIZE_def node_children_def node_removeChild_def
  removeChild_def Map_delete_def while_queue.simps Let_def js_gt_def Math_min_def

subsection \<open>The trivial query and the empty batch\<close>

text \<open>
  C6: \<open>getChain\<close> called with the local public key as root schedules the callback with no
  error and the empty chain, and changes nothing else, whatever the index and the cache
  hold and whether loading has finished or not.
\<close>

theorem getChain_self_empty:
  "getChain M now (trust_publicKey s) cb s = s\<lparr>ticks := ticks s @ [Call cb None (Some [])]\<rparr>"
  by (simp add: getChain_def)

theorem getChain_self_empty_witness:
  "getChain 5 1000 ''L'' 3 (Trust ''L'') = (Trust ''L'')\<lparr>ticks := [Call 3 None (Some [])]\<rparr>"
  using getChain_self_empty [of 5 1000 "Trust ''L''" 3]
  by (simp add: Trust_def load_def useDB_def)

text \<open>
  C9: \<open>addChain\<close> with an empty sequence of links returns at once: the engine (index,
  cache, storage operations in flight, scheduled callbacks) is as it was, and the
  completion callback is not scheduled.
\<close>

theorem addChain_empty_noop:
  "addChain parseLink clock rootKey [] cb s = (None, s)"
  by (simp add: addChain_def)

theorem addChain_empty_noop_witness:
  "addChain (\<lambda>r. None) (\<lambda>i. 1000) ''R'' [] (Some 4) (Trust ''L'') = (None, Trust ''L'')"
  using addChain_empty_noop [of "\<lambda>r. None" "\<lambda>i. 1000" "''R''" "Some 4" "Trust ''L''"]
  by simp

subsection \<open>The deferred close\<close>

lemma fold_close_idle:
  "dbUsed s = 0 \<Longrightarrow> fold close q s = s\<lparr>closes := closes s @ q\<rparr>"
  by (induction q arbitrary: s) (simp_all add: close_def)

text \<open>
  C7: while the count of storage operations is not zero, \<open>close\<close> hands nothing to the
  store and queues the close; with a count of zero it closes at once. \<open>_freeDB\<close> leaves
  the queue alone while the count stays above zero, and the call that brings the count
  to zero hands every queued close to the store, in order, and empties the queue.
\<close>

theorem close_deferred_until_idle:
  "(dbUsed s \<noteq> 0 \<longrightarrow>
      close cb s = s\<lparr>dbQueue := dbQueue s @ [cb]\<rparr> \<and> closes (close cb s) = closes s)
   \<and> (dbUsed s = 0 \<longrightarrow> close cb s = s\<lparr>closes := closes s @ [cb]\<rparr>)
   \<and> (dbUsed s = 1 \<longrightarrow>
        freeDB s = (None, s\<lparr>dbUsed := 0, dbQueue := [], closes := closes s @ dbQueue s\<rparr>))
   \<and> (1 < dbUsed s \<longrightarrow> freeDB s = (None, s\<lparr>dbUsed := dbUsed s - 1\<rparr>))"
  by (simp add: close_def freeDB_def Let_def fold_close_idle)

theorem close_deferred_until_idle_witness:
  "dbUsed (Trust ''L'') = 1
   \<and> closes (close 7 (Trust ''L'')) = [] \<and> dbQueue (close 7 (Trust ''L'')) = [7]
   \<and> freeDB (close 7 (Trust ''L''))
       = (None, (Trust ''L'')\<lparr>dbUsed := 0, dbQueue := [], closes := [7]\<rparr>)"
  using close_deferred_until_idle [of "Trust ''L''" 7]
    close_deferred_until_idle [of "close 7 (Trust ''L'')" 0]
  by (simp add: Trust_def load_def useDB_def close_def)

subsection \<open>The counter of storage operations\<close>

declare while_queue.simps(2) [simp del]

lemma balanced_for_children:
  "for_children M now h vis it cs stk s = (res, stk', s') \<Longrightarrow> balanced s \<Longrightarrow> balanced s'"
proof (induction cs arbitrary: stk s)
  case Nil
  then show ?case by simp
next
  case (Cons e rest)
  obtain k v where e: "e = (k, v)" by (cases e)
  let ?s1 = "db_del (raw v) (useDB (node_removeChild (item_node it) k s))"
  have b1: "balanced ?s1"
    using Cons.prems(2) by (simp add: balanced_def db_del_def useDB_def node_removeChild_def)
  from Cons.prems(1) show ?case
    unfolding e
    apply (simp add: Let_def split: if_splits)
    using Cons.IH b1 Cons.prems(2) apply (auto simp: balanced_def)
    done
qed

lemma balanced_while_queue:
  "while_queue M now h vis stk s = (res, s') \<Longrightarrow> balanced s \<Longrightarrow> balanced s'"
proof (induction M now h vis stk s rule: while_queue.induct)
  case (1 M now hexRoot visited s)
  then show ?case by simp
next
  case (2 M now hexRoot visited it stk s)
  obtain r stk1 s1 where run:
    "for_children M now hexRoot (insert (item_node it) visited) it
       (node_children s (item_node it)) stk s = (r, stk1, s1)"
    by (metis prod_cases3)
  have b1: "balanced s1" using balanced_for_children[OF run "2.prems"(2)] .
  show ?case
  proof (cases r)
    case None
    with "2.prems"(1) run have "while_queue M now hexRoot (insert (item_node it) visited) stk1 s1 = (res, s')"
      by (simp add: while_queue.simps(2))
    with "2.IH"[OF run[symmetric] _ refl] None b1 show ?thesis by simp
  next
    case (Some chain)
    with "2.prems"(1) run b1 show ?thesis by (auto simp: while_queue.simps(2))
  qed
qed

lemma balanced_getChain: "balanced s \<Longrightarrow> balanced (getChain M now rootKey cb s)"
proof -
  have res: "balanced (getChain_resolve M now rootKey cb t)" if "balanced t" for t
  proof -
    obtain r t' where run: "while_queue M now rootKey {}
        [\<lparr>item_node = rootKey, item_expiration = Infinity, item_chain = []\<rparr>] t = (r, t')"
      by (cases "while_queue M now rootKey {}
        [\<lparr>item_node = rootKey, item_expiration = Infinity, item_chain = []\<rparr>] t")
    from balanced_while_queue[OF run that] show ?thesis
      unfolding getChain_resolve_def run by (cases r) (simp_all add: balanced_def)
  qed
  have upd: "balanced s \<Longrightarrow> balanced (s\<lparr>lru := c\<rparr>)" for c
    by (simp add: balanced_def)
  assume "balanced s"
  then show ?thesis
    unfolding getChain_def
    by (auto split: prod.splits option.splits intro!: res upd) (simp_all add: balanced_def)
qed

lemma balanced_addLink: "balanced s \<Longrightarrow> balanced (addLink now parent r l s)"
  by (simp add: balanced_def addLink_def addMemLink_decoded_def db_put_def useDB_def Let_def)

lemma balanced_addChain_forEach:
  "balanced s \<Longrightarrow> balanced (snd (addChain_forEach parseLink clock i prev raws s))"
  by (induction raws arbitrary: i prev s) (auto split: option.splits intro: balanced_addLink)

lemma balanced_addChain: "balanced s \<Longrightarrow> balanced (snd (addChain parseLink clock rootKey raws cb s))"
  using balanced_addChain_forEach[of s parseLink clock 0 rootKey raws]
  by (auto simp: addChain_def balanced_def split: prod.splits option.splits)

lemma balanced_close: "balanced s \<Longrightarrow> balanced (close cb s)"
  by (simp add: balanced_def close_def)

lemma balanced_fold_close: "balanced s \<Longrightarrow> balanced (fold close q s)"
  by (induction q arbitrary: s) (simp_all add: balanced_close)

lemma balanced_on_data: "balanced s \<Longrightarrow> balanced (snd (on_data parseLink r parent s))"
  by (auto simp: on_data_def addMemLink_def addMemLink_decoded_def balanced_def Let_def
           split: option.splits)

lemma freeDB_complete:
  assumes "balanced s" and "op \<in> set (inflight s)"
  shows "fst (freeDB (completed op s)) = None" and "balanced (snd (freeDB (completed op s)))"
proof -
  have len: "length (remove1 op (inflight s)) = length (inflight s) - 1"
    using assms(2) by (simp add: length_remove1)
  have pos: "0 < length (inflight s)" using assms(2) by (cases "inflight s") auto
  let ?s1 = "(completed op s)\<lparr>dbUsed := dbUsed (completed op s) - 1\<rparr>"
  have b1: "balanced ?s1"
    using assms(1) len pos by (cases "length (inflight s)") (simp_all add: balanced_def completed_def)
  have nn: "0 \<le> dbUsed ?s1"
    using assms(1) pos by (simp add: balanced_def completed_def)
  show "fst (freeDB (completed op s)) = None"
    using nn by (simp add: freeDB_def Let_def)
  have "balanced (fold close (dbQueue ?s1) (?s1\<lparr>dbQueue := []\<rparr>))"
    using b1 by (intro balanced_fold_close) (simp add: balanced_def)
  then show "balanced (snd (freeDB (completed op s)))"
    using nn b1 by (auto simp: freeDB_def Let_def)
qed

lemma balanced_replay: "balanced s \<Longrightarrow> balanced (replay M clock i q s)"
  by (induction M clock i q s rule: replay.induct) (auto intro: balanced_getChain)

lemma reachable_balanced: "reachable parseLink M s \<Longrightarrow> balanced s"
proof (induction rule: reachable.induct)
  case (r_new pk)
  show ?case by (simp add: balanced_def Trust_def load_def useDB_def)
next
  case (r_end s s1 clock j)
  from freeDB_complete(2)[OF r_end.IH r_end.hyps(2)] r_end.hyps(3)
  have "balanced s1" by simp
  then have "balanced (s1\<lparr>ready := True, queue := []\<rparr>)" by (simp add: balanced_def)
  then show ?case by (rule balanced_replay)
qed (simp_all add: balanced_addChain balanced_getChain balanced_close balanced_on_data
       freeDB_complete on_error_def on_put_def on_del_def)

text \<open>
  C10: in every state the engine can reach, \<open>_dbUsed\<close> is the number of storage
  operations (puts, deletes, the read stream) that were begun and have not completed,
  so it is never negative, and the \<open>_freeDB\<close> of any operation that completes returns
  without the assertion failing. The store is taken to run each completion callback
  once, and the read stream to either end or fail.
\<close>

theorem storage_counter_balanced:
  assumes "reachable parseLink M s"
  shows "dbUsed s = int (length (inflight s)) \<and> 0 \<le> dbUsed s
         \<and> list_all (\<lambda>op. fst (freeDB (completed op s)) = None) (inflight s)"
proof -
  have b: "balanced s" using assms by (rule reachable_balanced)
  then have "dbUsed s = int (length (inflight s))" by (simp add: balanced_def)
  moreover from this have "0 \<le> dbUsed s" by simp
  moreover have "list_all (\<lambda>op. fst (freeDB (completed op s)) = None) (inflight s)"
    using freeDB_complete(1)[OF b] by (simp add: list_all_iff)
  ultimately show ?thesis by blast
qed

theorem storage_counter_balanced_witness:
  "dbUsed (snd (addChain parse_demo (\<lambda>i. 1000) ''R'' [''R>L''] None (Trust ''L''))) = 2
   \<and> inflight (snd (addChain parse_demo (\<lambda>i. 1000) ''R'' [''R>L''] None (Trust ''L'')))
       = [ReadStream, Put ''R>L'' ''R'']
   \<and> fst (freeDB (completed (Put ''R>L'' ''R'')
         (snd (addChain parse_demo (\<lambda>i. 1000) ''R'' [''R>L''] None (Trust ''L''))))) = None"
  using storage_counter_balanced [OF r_addChain [OF r_new],
      of parse_demo "\<lambda>i. 1000" "''R''" "[''R>L'']" None "''L''"]
  by (simp add: addChain_def parse_demo_def Trust_def load_def useDB_def addLink_def db_put_def
        addMemLink_decoded_def Map_get_def addChild_def)

subsection \<open>Returned chains and expiration\<close>

text \<open>The order of JavaScript numbers.\<close>

lemma js_le_NaN [simp]: "\<not> js_le a NaN"
  by (cases a) simp_all

lemma js_le_trans: "js_le a b \<Longrightarrow> js_le b c \<Longrightarrow> js_le a c"
  by (cases a; cases b; cases c) simp_all

lemma js_le_total: "a \<noteq> NaN \<Longrightarrow> b \<noteq> NaN \<Longrightarrow> js_le a b \<or> js_le b a"
  by (cases a; cases b) auto

lemma js_le_refl: "a \<noteq> NaN \<Longrightarrow> js_le a a"
  by (cases a) simp_all

lemma js_lt_le_trans: "js_lt a b \<Longrightarrow> js_le b c \<Longrightarrow> js_lt a c"
  by (cases a; cases b; cases c) simp_all

lemma js_lt_not_le: "js_lt a b \<Longrightarrow> \<not> js_le b a"
  by (cases a; cases b) simp_all

lemma js_gt_NaN [simp]: "\<not> js_gt NaN b"
  by (cases b) (simp_all add: js_gt_def)

lemma js_gt_earlier: "js_gt x (Num t) \<Longrightarrow> u \<le> t \<Longrightarrow> \<not> js_le x (Num u)"
  by (cases x) (simp_all add: js_gt_def)

lemma unexpired_not_stale: "unexpired P t chain \<Longrightarrow> not_stale P t chain"
  by (auto simp: unexpired_def not_stale_def list_all_iff js_gt_def js_lt_not_le
        split: option.splits)

lemma lasts_unexpired: "lasts P e chain \<Longrightarrow> js_gt e (Num t) \<Longrightarrow> unexpired P t chain"
  by (auto simp: lasts_def unexpired_def list_all_iff js_gt_def split: option.splits
        intro: js_lt_le_trans)

lemma lasts_Math_min:
  assumes "lasts P n chain" and "P r = Some l"
  shows "lasts P (Math_min n (expiration l)) (chain @ [r])"
proof (cases "n = NaN \<or> expiration l = NaN")
  case True
  then show ?thesis by (auto simp: lasts_def Math_min_def)
next
  case False
  then have n: "n \<noteq> NaN" and e: "expiration l \<noteq> NaN" by simp_all
  from assms(1) n have all: "list_all (\<lambda>r. case P r of None \<Rightarrow> False | Some l \<Rightarrow> js_le n (expiration l)) chain"
    by (simp add: lasts_def)
  show ?thesis
  proof (cases "js_le n (expiration l)")
    case True
    with n e all assms(2) show ?thesis by (simp add: lasts_def Math_min_def)
  next
    case False
    with js_le_total[OF n e] have le: "js_le (expiration l) n" by blast
    have "list_all (\<lambda>r. case P r of None \<Rightarrow> False | Some k \<Rightarrow> js_le (expiration l) (expiration k)) chain"
      using all le by (auto simp: list_all_iff split: option.splits intro: js_le_trans)
    with False n e assms(2) show ?thesis by (simp add: lasts_def Math_min_def js_le_refl)
  qed
qed

lemma cache_ok_iff:
  "cache_ok P c \<longleftrightarrow> (\<forall>k v. (k, v) \<in> set c \<longrightarrow> lasts P (cached_expiration v) (cached_chain v))"
  by (auto simp: cache_ok_def list_all_iff)

lemma decoded_iff:
  "decoded P cs \<longleftrightarrow> (\<forall>k c. (k, c) \<in> set cs \<longrightarrow> P (raw c) = Some (link c))"
  by (auto simp: decoded_def list_all_iff)

lemma graph_ok_iff:
  "graph_ok P s \<longleftrightarrow> (\<forall>n cs. (n, cs) \<in> set (graph s) \<longrightarrow> decoded P cs)"
  by (auto simp: graph_ok_def list_all_iff)

lemma cache_ok_filter: "cache_ok P c \<Longrightarrow> cache_ok P (filter f c)"
  by (auto simp: cache_ok_iff)

lemma set_lru_set: "set (lru_set k v c) \<subseteq> insert (k, v) (set c)"
  by (auto simp: lru_set_def dest!: in_set_takeD)

lemma cache_ok_lru_set:
  "cache_ok P c \<Longrightarrow> lasts P (cached_expiration v) (cached_chain v) \<Longrightarrow> cache_ok P (lru_set k v c)"
  using set_lru_set[of k v c] by (auto simp: cache_ok_iff)

lemma cache_ok_lru_remove: "cache_ok P c \<Longrightarrow> cache_ok P (lru_remove k c)"
  by (simp add: lru_remove_def cache_ok_filter)

lemma cache_ok_lru_get:
  assumes "cache_ok P c" and "lru_get k c = (r, c')"
  shows "cache_ok P c'" and "r = Some v \<Longrightarrow> lasts P (cached_expiration v) (cached_chain v)"
proof -
  have hit: "lasts P (cached_expiration x) (cached_chain x)" if "map_of c k = Some x" for x
    using assms(1) map_of_SomeD[OF that] by (simp add: cache_ok_iff)
  show "cache_ok P c'"
  proof (cases "map_of c k")
    case None
    with assms show ?thesis by (simp add: lru_get_def)
  next
    case (Some x)
    with assms(2) have "c' = (k, x) # filter (\<lambda>e. fst e \<noteq> k) c" by (simp add: lru_get_def)
    with hit[OF Some] cache_ok_filter[OF assms(1), of "\<lambda>e. fst e \<noteq> k"] show ?thesis
      by (simp add: cache_ok_def)
  qed
  show "r = Some v \<Longrightarrow> lasts P (cached_expiration v) (cached_chain v)"
    using assms(2) hit by (auto simp: lru_get_def split: option.splits)
qed

lemma decoded_removeChild: "decoded P cs \<Longrightarrow> decoded P (removeChild k cs)"
  by (auto simp: decoded_iff removeChild_def Map_delete_def)

lemma graph_ok_node_removeChild: "graph_ok P s \<Longrightarrow> graph_ok P (node_removeChild n k s)"
  unfolding graph_ok_iff node_removeChild_def
  by (fastforce split: if_splits intro: decoded_removeChild)

lemma decoded_node_children: "graph_ok P s \<Longrightarrow> decoded P (node_children s n)"
proof (cases "map_of (graph s) n")
  case None
  then show ?thesis by (simp add: node_children_def Map_get_def decoded_def)
next
  case (Some cs)
  assume "graph_ok P s"
  with map_of_SomeD[OF Some] have "decoded P cs" by (auto simp: graph_ok_iff)
  with Some show ?thesis by (simp add: node_children_def Map_get_def)
qed

lemma graph_ok_fields [simp]:
  "graph_ok P (db_del r s) = graph_ok P s" "graph_ok P (useDB s) = graph_ok P s"
  "graph_ok P (s\<lparr>lru := c\<rparr>) = graph_ok P s"
  "graph_ok P (s\<lparr>ticks := tk\<rparr>) = graph_ok P s"
  by (simp_all add: graph_ok_def db_del_def useDB_def)

lemma lru_fields [simp]:
  "lru (db_del r s) = lru s" "lru (useDB s) = lru s" "lru (node_removeChild n k s) = lru s"
  by (simp_all add: db_del_def useDB_def node_removeChild_def)

lemma for_children_ok:
  assumes "for_children M now h vis it cs stk s = (res, stk', s')"
    and "item_ok P now it" and "decoded P cs" and "list_all (item_ok P now) stk"
    and "graph_ok P s" and "cache_ok P (lru s)"
  shows "graph_ok P s' \<and> cache_ok P (lru s') \<and> list_all (item_ok P now) stk'
         \<and> (\<forall>chain. res = Some chain \<longrightarrow> not_stale P now chain)"
  using assms
proof (induction cs arbitrary: stk s)
  case Nil
  then show ?case by simp
next
  case (Cons e rest)
  obtain k v where e: "e = (k, v)" by (cases e)
  have dec: "P (raw v) = Some (link v)" and drest: "decoded P rest"
    using Cons.prems(3) by (simp_all add: e decoded_def)
  let ?chain = "item_chain it @ [raw v]"
  let ?exp = "Math_min (item_expiration it) (expiration (link v))"
  let ?new = "\<lparr>item_node = k, item_expiration = ?exp, item_chain = ?chain\<rparr>"
  let ?s1 = "db_del (raw v) (useDB (node_removeChild (item_node it) k s))"
  note IH = Cons.IH[OF _ Cons.prems(2) drest]
  show ?case
  proof (cases "js_le (expiration (link v)) (Num now)")
    case True
    with Cons.prems(1) have run: "for_children M now h vis it rest stk ?s1 = (res, stk', s')"
      by (simp add: e)
    show ?thesis
      by (rule IH[OF run Cons.prems(4)])
         (simp_all add: graph_ok_node_removeChild Cons.prems(5,6))
  next
    case live: False
    have l: "lasts P ?exp ?chain"
      using Cons.prems(2) dec by (intro lasts_Math_min) (simp_all add: item_ok_def)
    have u: "not_stale P now ?chain"
      using Cons.prems(2) dec live by (simp add: item_ok_def not_stale_def)
    show ?thesis
    proof (cases "trust_publicKey s = publicKey (link v)")
      case True
      with live Cons.prems(1) have
        "res = Some ?chain" "stk' = stk"
        "s' = s\<lparr>lru := lru_set h \<lparr>cached_expiration = ?exp, cached_chain = ?chain\<rparr> (lru s)\<rparr>"
        by (simp_all add: e Let_def)
      then show ?thesis
        using u l Cons.prems(4,5,6) by (simp add: cache_ok_lru_set)
    next
      case nomatch: False
      consider (skip) "for_children M now h vis it rest stk s = (res, stk', s')"
        | (push) "for_children M now h vis it rest (?new # stk) s = (res, stk', s')"
        using Cons.prems(1) live nomatch by (simp add: e Let_def split: if_splits)
      then show ?thesis
      proof cases
        case skip
        show ?thesis by (rule IH[OF skip Cons.prems(4,5,6)])
      next
        case push
        have "item_ok P now ?new"
          using u l by (simp add: item_ok_def)
        with Cons.prems(4) have "list_all (item_ok P now) (?new # stk)"
          by simp
        from IH[OF push this Cons.prems(5,6)] show ?thesis .
      qed
    qed
  qed
qed

lemma while_queue_ok:
  assumes "while_queue M now h vis stk s = (res, s')"
    and "list_all (item_ok P now) stk" and "graph_ok P s" and "cache_ok P (lru s)"
  shows "graph_ok P s' \<and> cache_ok P (lru s') \<and> (\<forall>chain. res = Some chain \<longrightarrow> not_stale P now chain)"
  using assms
proof (induction M now h vis stk s rule: while_queue.induct)
  case (1 M now hexRoot visited s)
  then show ?case by simp
next
  case (2 M now hexRoot visited it stk s)
  obtain r stk1 s1 where run:
    "for_children M now hexRoot (insert (item_node it) visited) it
       (node_children s (item_node it)) stk s = (r, stk1, s1)"
    by (metis prod_cases3)
  from "2.prems"(2) have it: "item_ok P now it" and stk: "list_all (item_ok P now) stk"
    by simp_all
  note ok = for_children_ok[OF run it decoded_node_children[OF "2.prems"(3)] stk "2.prems"(3,4)]
  show ?case
  proof (cases r)
    case None
    with "2.prems"(1) run
    have w: "while_queue M now hexRoot (insert (item_node it) visited) stk1 s1 = (res, s')"
      by (simp add: while_queue.simps(2))
    from "2.IH"[OF run[symmetric] _ refl w] None ok show ?thesis by simp
  next
    case (Some chain)
    with "2.prems"(1) run ok show ?thesis by (auto simp: while_queue.simps(2))
  qed
qed

lemma same_frame_for_children:
  "for_children M now h vis it cs stk s = (res, stk', s') \<Longrightarrow> same_frame s s'"
proof (induction cs arbitrary: stk s)
  case Nil
  then show ?case by (simp add: same_frame_def)
next
  case (Cons e rest)
  obtain k v where e: "e = (k, v)" by (cases e)
  let ?s1 = "db_del (raw v) (useDB (node_removeChild (item_node it) k s))"
  have f1: "same_frame s ?s1"
    by (simp add: same_frame_def db_del_def useDB_def node_removeChild_def)
  from Cons.prems show ?case
    unfolding e
    apply (simp add: Let_def split: if_splits)
    using Cons.IH[of stk ?s1] f1 apply (simp add: same_frame_def)
       apply (auto simp: same_frame_def dest: Cons.IH)
    done
qed

lemma same_frame_while_queue:
  "while_queue M now h vis stk s = (res, s') \<Longrightarrow> same_frame s s'"
proof (induction M now h vis stk s rule: while_queue.induct)
  case (1 M now hexRoot visited s)
  then show ?case by (simp add: same_frame_def)
next
  case (2 M now hexRoot visited it stk s)
  obtain r stk1 s1 where run:
    "for_children M now hexRoot (insert (item_node it) visited) it
       (node_children s (item_node it)) stk s = (r, stk1, s1)"
    by (metis prod_cases3)
  note f1 = same_frame_for_children[OF run]
  show ?case
  proof (cases r)
    case None
    with "2.prems"(1) run
    have w: "while_queue M now hexRoot (insert (item_node it) visited) stk1 s1 = (res, s')"
      by (simp add: while_queue.simps(2))
    from "2.IH"[OF run[symmetric] _ refl w] None f1 show ?thesis by (simp add: same_frame_def)
  next
    case (Some chain)
    with "2.prems"(1) run f1 show ?thesis by (auto simp: while_queue.simps(2))
  qed
qed

text \<open>What the search of \<open>getChain\<close> schedules: one call, with the chain found or with
  the error.\<close>

lemma getChain_resolve_cases:
  obtains (found) chain s' where
      "while_queue M now rootKey {}
         [\<lparr>item_node = rootKey, item_expiration = Infinity, item_chain = []\<rparr>] s = (Some chain, s')"
      "getChain_resolve M now rootKey cb s = s'\<lparr>ticks := ticks s @ [Call cb None (Some chain)]\<rparr>"
  | (nopath) s' where
      "while_queue M now rootKey {}
         [\<lparr>item_node = rootKey, item_expiration = Infinity, item_chain = []\<rparr>] s = (None, s')"
      "getChain_resolve M now rootKey cb s = s'\<lparr>ticks := ticks s @ [Call cb (Some NoTrustPath) None]\<rparr>"
proof -
  obtain r s' where run: "while_queue M now rootKey {}
         [\<lparr>item_node = rootKey, item_expiration = Infinity, item_chain = []\<rparr>] s = (r, s')"
    by (cases "while_queue M now rootKey {}
         [\<lparr>item_node = rootKey, item_expiration = Infinity, item_chain = []\<rparr>] s")
  from same_frame_while_queue[OF run] have tk: "ticks s' = ticks s"
    by (simp add: same_frame_def)
  show thesis
  proof (cases r)
    case None
    with run tk show ?thesis by (intro nopath[of s']) (simp_all add: getChain_resolve_def)
  next
    case (Some chain)
    with run tk show ?thesis by (intro found[of chain s']) (simp_all add: getChain_resolve_def)
  qed
qed

lemma getChain_resolve_ok:
  assumes "graph_ok P s" and "cache_ok P (lru s)"
  shows "graph_ok P (getChain_resolve M now rootKey cb s)
       \<and> cache_ok P (lru (getChain_resolve M now rootKey cb s))
       \<and> (\<forall>chain. ticks (getChain_resolve M now rootKey cb s) = ticks s @ [Call cb None (Some chain)]
            \<longrightarrow> not_stale P now chain)"
proof -
  have start: "list_all (item_ok P now)
      [\<lparr>item_node = rootKey, item_expiration = Infinity, item_chain = []\<rparr>]"
    by (simp add: item_ok_def not_stale_def lasts_def)
  show ?thesis
  proof (cases rule: getChain_resolve_cases[of M now rootKey s cb])
    case (found chain s')
    from while_queue_ok[OF found(1) start assms] found(2) show ?thesis by simp
  next
    case (nopath s')
    from while_queue_ok[OF nopath(1) start assms] nopath(2) show ?thesis by simp
  qed
qed

lemma getChain_ok:
  assumes "graph_ok P s" and "cache_ok P (lru s)"
  shows "graph_ok P (getChain M now rootKey cb s)
       \<and> cache_ok P (lru (getChain M now rootKey cb s))
       \<and> (\<forall>chain. ticks (getChain M now rootKey cb s) = ticks s @ [Call cb None (Some chain)]
            \<longrightarrow> not_stale P now chain)"
proof -
  obtain co lru1 where get: "lru_get rootKey (lru s) = (co, lru1)"
    by (cases "lru_get rootKey (lru s)")
  note c1 = cache_ok_lru_get[OF assms(2) get]
  consider (self) "rootKey = trust_publicKey s"
    | (wait) "rootKey \<noteq> trust_publicKey s" "\<not> ready s"
    | (unknown) "rootKey \<noteq> trust_publicKey s" "ready s" "\<not> Map_has (graph s) rootKey"
    | (hit) c where "rootKey \<noteq> trust_publicKey s" "ready s" "Map_has (graph s) rootKey"
        "co = Some c" "js_gt (cached_expiration c) (Num now)"
    | (stale) c where "rootKey \<noteq> trust_publicKey s" "ready s" "Map_has (graph s) rootKey"
        "co = Some c" "\<not> js_gt (cached_expiration c) (Num now)"
    | (miss) "rootKey \<noteq> trust_publicKey s" "ready s" "Map_has (graph s) rootKey" "co = None"
    by (cases co) auto
  then show ?thesis
  proof cases
    case self
    with assms show ?thesis by (simp add: getChain_def not_stale_def)
  next
    case wait
    with assms show ?thesis by (simp add: getChain_def graph_ok_def)
  next
    case unknown
    with assms show ?thesis by (simp add: getChain_def)
  next
    case (hit c)
    from c1(2)[OF hit(4)] hit(5) have "not_stale P now (cached_chain c)"
      by (intro unexpired_not_stale lasts_unexpired)
    with hit get assms c1(1) show ?thesis by (simp add: getChain_def)
  next
    case (stale c)
    let ?s1 = "s\<lparr>lru := lru_remove rootKey lru1\<rparr>"
    have "getChain M now rootKey cb s = getChain_resolve M now rootKey cb ?s1"
      using stale get by (simp add: getChain_def)
    moreover have "graph_ok P ?s1" "cache_ok P (lru ?s1)"
      using assms(1) c1(1) by (simp_all add: cache_ok_lru_remove)
    ultimately show ?thesis
      using getChain_resolve_ok[of P ?s1 M now rootKey cb] by simp
  next
    case miss
    let ?s1 = "s\<lparr>lru := lru1\<rparr>"
    have "getChain M now rootKey cb s = getChain_resolve M now rootKey cb ?s1"
      using miss get by (simp add: getChain_def)
    moreover have "graph_ok P ?s1" "cache_ok P (lru ?s1)"
      using assms(1) c1(1) by simp_all
    ultimately show ?thesis
      using getChain_resolve_ok[of P ?s1 M now rootKey cb] by simp
  qed
qed

lemma set_Map_set: "set (Map_set k v m) \<subseteq> insert (k, v) (set m)"
  by (induction m) (auto split: if_splits)

lemma decoded_addChild:
  "decoded P cs \<Longrightarrow> P r = Some l \<Longrightarrow> decoded P (addChild \<lparr>link = l, raw = r\<rparr> cs)"
  using set_Map_set[of "publicKey l" "\<lparr>link = l, raw = r\<rparr>" cs]
  by (auto simp: decoded_iff addChild_def)

lemma sound_addMemLink_decoded:
  assumes "sound P s" and "P r = Some l"
  shows "sound P (addMemLink_decoded parent r l s)"
proof -
  let ?node = "case Map_get (graph s) parent of Some n \<Rightarrow> n | None \<Rightarrow> []"
  have "decoded P ?node"
    using decoded_node_children[of P s parent] assms(1) by (simp add: sound_def node_children_def)
  then have "decoded P (addChild \<lparr>link = l, raw = r\<rparr> ?node)"
    using assms(2) by (rule decoded_addChild)
  then have "graph_ok P (addMemLink_decoded parent r l s)"
    using assms(1) set_Map_set[of parent "addChild \<lparr>link = l, raw = r\<rparr> ?node" "graph s"]
    by (auto simp: sound_def graph_ok_iff addMemLink_decoded_def Let_def)
  then show ?thesis
    using assms(1) by (simp add: sound_def addMemLink_decoded_def Let_def)
qed

lemma sound_addLink: "sound P s \<Longrightarrow> P r = Some l \<Longrightarrow> sound P (addLink now parent r l s)"
proof -
  assume s: "sound P s" and l: "P r = Some l"
  have "sound P (db_put r parent (useDB s))"
    using s by (simp add: sound_def graph_ok_def db_put_def useDB_def)
  from sound_addMemLink_decoded[OF this l] s show ?thesis by (simp add: addLink_def)
qed

lemma sound_addChain_forEach:
  "sound P s \<Longrightarrow> sound P (snd (addChain_forEach P clock i prev raws s))"
  by (induction raws arbitrary: i prev s) (auto split: option.splits intro: sound_addLink)

lemma sound_addChain: "sound P s \<Longrightarrow> sound P (snd (addChain P clock rootKey raws cb s))"
  using sound_addChain_forEach[of P s clock 0 rootKey raws]
  by (auto simp: addChain_def sound_def graph_ok_def split: prod.splits option.splits)

lemma sound_getChain: "sound P s \<Longrightarrow> sound P (getChain M now rootKey cb s)"
  using getChain_ok[of P s M now rootKey cb] by (simp add: sound_def)

lemma sound_close: "sound P s \<Longrightarrow> sound P (close cb s)"
  by (simp add: sound_def graph_ok_def close_def)

lemma sound_fold_close: "sound P s \<Longrightarrow> sound P (fold close q s)"
  by (induction q arbitrary: s) (simp_all add: sound_close)

lemma sound_freeDB: "sound P s \<Longrightarrow> sound P (snd (freeDB s))"
proof -
  assume s: "sound P s"
  have "sound P (fold close (dbQueue s) (s\<lparr>dbUsed := dbUsed s - 1, dbQueue := []\<rparr>))"
    using s by (intro sound_fold_close) (simp add: sound_def graph_ok_def)
  with s show ?thesis by (auto simp: freeDB_def Let_def sound_def graph_ok_def)
qed

lemma sound_completed: "sound P s \<Longrightarrow> sound P (completed op s)"
  by (simp add: sound_def graph_ok_def completed_def)

lemma sound_on_data: "sound P s \<Longrightarrow> sound P (snd (on_data P r parent s))"
  by (auto simp: on_data_def addMemLink_def split: option.splits intro: sound_addMemLink_decoded)

lemma sound_replay: "sound P s \<Longrightarrow> sound P (replay M clock i q s)"
  by (induction M clock i q s rule: replay.induct) (auto intro: sound_getChain)

lemma reachable_sound: "reachable P M s \<Longrightarrow> sound P s"
proof (induction rule: reachable.induct)
  case (r_new pk)
  show ?case
    by (simp add: sound_def graph_ok_def cache_ok_def Trust_def load_def useDB_def)
next
  case (r_end s s1 clock j)
  from sound_freeDB[OF sound_completed[OF r_end.IH], of ReadStream] r_end.hyps(3)
  have "sound P s1" by simp
  then have "sound P (s1\<lparr>ready := True, queue := []\<rparr>)" by (simp add: sound_def graph_ok_def)
  then show ?case by (rule sound_replay)
qed (simp_all add: sound_addChain sound_getChain sound_close sound_on_data
       sound_freeDB sound_completed on_error_def on_put_def on_del_def)

text \<open>A link that is stale when it is added is not indexed and not put to the store.\<close>

lemma addLink_stale: "js_le (expiration l) (Num now) \<Longrightarrow> addLink now parent r l s = s"
  by (simp add: addLink_def)

text \<open>What holds of every chain that \<open>getChain\<close> hands to its callback, in every state the
  engine can reach: each link decodes and passes the test of the code at the time \<open>now\<close>
  of the call, that is, \<open>expiration <= now\<close> is false. For a link whose expiration is not
  \<open>NaN\<close> this says that the expiration is greater than \<open>now\<close>.\<close>

lemma getChain_chain_not_stale:
  assumes "reachable parseLink M s"
    and "ticks (getChain M now rootKey cb s) = ticks s @ [Call cb None (Some chain)]"
  shows "not_stale parseLink now chain"
proof -
  from reachable_sound[OF assms(1)]
  have "graph_ok parseLink s" "cache_ok parseLink (lru s)" by (simp_all add: sound_def)
  from getChain_ok[OF this, of M now rootKey cb] assms(2)
  show ?thesis by blast
qed

lemma not_stale_unexpired:
  assumes "not_stale parseLink now chain"
    and "list_all (\<lambda>r. case parseLink r of None \<Rightarrow> True | Some l \<Rightarrow> expiration l \<noteq> NaN) chain"
  shows "unexpired parseLink now chain"
proof -
  have "js_gt x (Num now)" if "\<not> js_le x (Num now)" "x \<noteq> NaN" for x
    using that by (cases x) (simp_all add: js_gt_def)
  with assms show ?thesis
    by (auto simp: not_stale_def unexpired_def list_all_iff split: option.splits)
qed

text \<open>
  C1 does not hold of the code. Both guards against expired links, in \<open>_addLink\<close>
  (\<open>// Ignore stale links\<close>) and in \<open>getChain\<close> (\<open>// Link expired\<close>), test
  \<open>link.expiration <= now\<close>, which is false when the expiration is \<open>NaN\<close>. A link from
  \<open>R\<close> to the local key whose expiration decodes to \<open>NaN\<close> is therefore indexed when it
  is added at time 1000, and \<open>getChain\<close> returns it at time 5000, and again at time 6000
  (the cached expiration is \<open>NaN\<close>, so the cache entry is dropped and the search runs
  again), although its expiration is not greater than the time of the call.
\<close>

theorem nan_link_is_returned:
  "parse_demo ''R>L nan'' = Some \<lparr>publicKey = ''L'', expiration = NaN\<rparr>
   \<and> node_children (snd (addChain parse_demo (\<lambda>i. 1000) ''R'' [''R>L nan''] None demo_ready)) ''R''
       = [(''L'', \<lparr>link = \<lparr>publicKey = ''L'', expiration = NaN\<rparr>, raw = ''R>L nan''\<rparr>)]
   \<and> ticks (getChain 5 5000 ''R'' 1
        (snd (addChain parse_demo (\<lambda>i. 1000) ''R'' [''R>L nan''] None demo_ready)))
       = [Call 1 None (Some [''R>L nan''])]
   \<and> ticks (getChain 5 6000 ''R'' 2 (getChain 5 5000 ''R'' 1
        (snd (addChain parse_demo (\<lambda>i. 1000) ''R'' [''R>L nan''] None demo_ready))))
       = [Call 1 None (Some [''R>L nan'']), Call 2 None (Some [''R>L nan''])]
   \<and> \<not> unexpired parse_demo 5000 [''R>L nan'']
   \<and> \<not> js_gt NaN (Num 5000)"
  by (simp add: demo_ready_eq eval_defs unexpired_def)

subsection \<open>Returned chains are bounded\<close>

lemma cache_short_iff:
  "cache_short M c \<longleftrightarrow> (\<forall>k v. (k, v) \<in> set c \<longrightarrow> length (cached_chain v) \<le> M)"
  by (auto simp: cache_short_def list_all_iff)

lemma cache_short_filter: "cache_short M c \<Longrightarrow> cache_short M (filter f c)"
  by (auto simp: cache_short_iff)

lemma cache_short_lru_set:
  "cache_short M c \<Longrightarrow> length (cached_chain v) \<le> M \<Longrightarrow> cache_short M (lru_set k v c)"
  using set_lru_set[of k v c] by (auto simp: cache_short_iff)

lemma cache_short_lru_get:
  assumes "cache_short M c" and "lru_get k c = (r, c')"
  shows "cache_short M c'" and "r = Some v \<Longrightarrow> length (cached_chain v) \<le> M"
proof -
  have hit: "length (cached_chain x) \<le> M" if "map_of c k = Some x" for x
    using assms(1) map_of_SomeD[OF that] by (simp add: cache_short_iff)
  show "cache_short M c'"
  proof (cases "map_of c k")
    case None
    with assms show ?thesis by (simp add: lru_get_def)
  next
    case (Some x)
    with assms(2) have "c' = (k, x) # filter (\<lambda>e. fst e \<noteq> k) c" by (simp add: lru_get_def)
    with hit[OF Some] cache_short_filter[OF assms(1), of "\<lambda>e. fst e \<noteq> k"] show ?thesis
      by (simp add: cache_short_def)
  qed
  show "r = Some v \<Longrightarrow> length (cached_chain v) \<le> M"
    using assms(2) hit by (auto simp: lru_get_def split: option.splits)
qed

lemma for_children_short:
  assumes "for_children M now h vis it cs stk s = (res, stk', s')"
    and "item_short M it" and "list_all (item_short M) stk" and "cache_short M (lru s)"
  shows "cache_short M (lru s') \<and> list_all (item_short M) stk'
         \<and> (\<forall>chain. res = Some chain \<longrightarrow> length chain \<le> M)"
  using assms
proof (induction cs arbitrary: stk s)
  case Nil
  then show ?case by simp
next
  case (Cons e rest)
  obtain k v where e: "e = (k, v)" by (cases e)
  let ?chain = "item_chain it @ [raw v]"
  let ?exp = "Math_min (item_expiration it) (expiration (link v))"
  let ?new = "\<lparr>item_node = k, item_expiration = ?exp, item_chain = ?chain\<rparr>"
  let ?s1 = "db_del (raw v) (useDB (node_removeChild (item_node it) k s))"
  note IH = Cons.IH[OF _ Cons.prems(2)]
  have len: "length ?chain \<le> M" using Cons.prems(2) by (simp add: item_short_def)
  show ?case
  proof (cases "js_le (expiration (link v)) (Num now)")
    case True
    with Cons.prems(1) have run: "for_children M now h vis it rest stk ?s1 = (res, stk', s')"
      by (simp add: e)
    show ?thesis by (rule IH[OF run Cons.prems(3)]) (simp add: Cons.prems(4))
  next
    case live: False
    show ?thesis
    proof (cases "trust_publicKey s = publicKey (link v)")
      case True
      with live Cons.prems(1) have
        "res = Some ?chain" "stk' = stk"
        "s' = s\<lparr>lru := lru_set h \<lparr>cached_expiration = ?exp, cached_chain = ?chain\<rparr> (lru s)\<rparr>"
        by (simp_all add: e Let_def)
      then show ?thesis using len Cons.prems(3,4) by (simp add: cache_short_lru_set)
    next
      case nomatch: False
      show ?thesis
      proof (cases "\<not> Map_has (graph s) k \<or> k \<in> vis \<or> length ?chain \<ge> M")
        case True
        with Cons.prems(1) live nomatch
        have skip: "for_children M now h vis it rest stk s = (res, stk', s')"
          by (auto simp: e Let_def split: if_splits)
        show ?thesis by (rule IH[OF skip Cons.prems(3,4)])
      next
        case False
        with Cons.prems(1) live nomatch
        have push: "for_children M now h vis it rest (?new # stk) s = (res, stk', s')"
          by (simp add: e Let_def)
        have "item_short M ?new" using False by (simp add: item_short_def)
        with Cons.prems(3) have "list_all (item_short M) (?new # stk)" by simp
        from IH[OF push this Cons.prems(4)] show ?thesis .
      qed
    qed
  qed
qed

lemma while_queue_short:
  assumes "while_queue M now h vis stk s = (res, s')"
    and "list_all (item_short M) stk" and "cache_short M (lru s)"
  shows "cache_short M (lru s') \<and> (\<forall>chain. res = Some chain \<longrightarrow> length chain \<le> M)"
  using assms
proof (induction M now h vis stk s rule: while_queue.induct)
  case (1 M now hexRoot visited s)
  then show ?case by simp
next
  case (2 M now hexRoot visited it stk s)
  obtain r stk1 s1 where run:
    "for_children M now hexRoot (insert (item_node it) visited) it
       (node_children s (item_node it)) stk s = (r, stk1, s1)"
    by (metis prod_cases3)
  from "2.prems"(2) have it: "item_short M it" and stk: "list_all (item_short M) stk"
    by simp_all
  note ok = for_children_short[OF run it stk "2.prems"(3)]
  show ?case
  proof (cases r)
    case None
    with "2.prems"(1) run
    have w: "while_queue M now hexRoot (insert (item_node it) visited) stk1 s1 = (res, s')"
      by (simp add: while_queue.simps(2))
    from "2.IH"[OF run[symmetric] _ refl w] None ok show ?thesis by simp
  next
    case (Some chain)
    with "2.prems"(1) run ok show ?thesis by (auto simp: while_queue.simps(2))
  qed
qed

lemma getChain_resolve_short:
  assumes "0 < M" and "cache_short M (lru s)"
  shows "cache_short M (lru (getChain_resolve M now rootKey cb s))
       \<and> (\<forall>chain. ticks (getChain_resolve M now rootKey cb s) = ticks s @ [Call cb None (Some chain)]
            \<longrightarrow> length chain \<le> M)"
proof -
  have start: "list_all (item_short M)
      [\<lparr>item_node = rootKey, item_expiration = Infinity, item_chain = []\<rparr>]"
    using assms(1) by (simp add: item_short_def)
  show ?thesis
  proof (cases rule: getChain_resolve_cases[of M now rootKey s cb])
    case (found chain s')
    from while_queue_short[OF found(1) start assms(2)] found(2) show ?thesis by simp
  next
    case (nopath s')
    from while_queue_short[OF nopath(1) start assms(2)] nopath(2) show ?thesis by simp
  qed
qed

lemma getChain_short:
  assumes "0 < M" and "cache_short M (lru s)"
  shows "cache_short M (lru (getChain M now rootKey cb s))
       \<and> (\<forall>chain. ticks (getChain M now rootKey cb s) = ticks s @ [Call cb None (Some chain)]
            \<longrightarrow> length chain \<le> M)"
proof -
  obtain co lru1 where get: "lru_get rootKey (lru s) = (co, lru1)"
    by (cases "lru_get rootKey (lru s)")
  note c1 = cache_short_lru_get[OF assms(2) get]
  consider (self) "rootKey = trust_publicKey s"
    | (wait) "rootKey \<noteq> trust_publicKey s" "\<not> ready s"
    | (unknown) "rootKey \<noteq> trust_publicKey s" "ready s" "\<not> Map_has (graph s) rootKey"
    | (hit) c where "rootKey \<noteq> trust_publicKey s" "ready s" "Map_has (graph s) rootKey"
        "co = Some c" "js_gt (cached_expiration c) (Num now)"
    | (stale) c where "rootKey \<noteq> trust_publicKey s" "ready s" "Map_has (graph s) rootKey"
        "co = Some c" "\<not> js_gt (cached_expiration c) (Num now)"
    | (miss) "rootKey \<noteq> trust_publicKey s" "ready s" "Map_has (graph s) rootKey" "co = None"
    by (cases co) auto
  then show ?thesis
  proof cases
    case self
    with assms show ?thesis by (simp add: getChain_def)
  next
    case wait
    with assms show ?thesis by (simp add: getChain_def)
  next
    case unknown
    with assms show ?thesis by (simp add: getChain_def)
  next
    case (hit c)
    with get assms c1(1) c1(2)[OF hit(4)] show ?thesis by (simp add: getChain_def)
  next
    case (stale c)
    let ?s1 = "s\<lparr>lru := lru_remove rootKey lru1\<rparr>"
    have "getChain M now rootKey cb s = getChain_resolve M now rootKey cb ?s1"
      using stale get by (simp add: getChain_def)
    moreover have "cache_short M (lru ?s1)"
      using c1(1) by (simp add: lru_remove_def cache_short_filter)
    ultimately show ?thesis
      using getChain_resolve_short[OF assms(1), of ?s1 now rootKey cb] by simp
  next
    case miss
    let ?s1 = "s\<lparr>lru := lru1\<rparr>"
    have "getChain M now rootKey cb s = getChain_resolve M now rootKey cb ?s1"
      using miss get by (simp add: getChain_def)
    moreover have "cache_short M (lru ?s1)"
      using c1(1) by simp
    ultimately show ?thesis
      using getChain_resolve_short[OF assms(1), of ?s1 now rootKey cb] by simp
  qed
qed

text \<open>Only \<open>getChain\<close> writes the cache.\<close>

lemma lru_addMemLink_decoded [simp]: "lru (addMemLink_decoded parent r l s) = lru s"
  by (simp add: addMemLink_decoded_def Let_def)

lemma lru_addLink [simp]: "lru (addLink now parent r l s) = lru s"
  by (simp add: addLink_def db_put_def useDB_def)

lemma lru_addChain_forEach [simp]: "lru (snd (addChain_forEach P clock i prev raws s)) = lru s"
  by (induction raws arbitrary: i prev s) (auto split: option.splits)

lemma lru_addChain [simp]: "lru (snd (addChain P clock rootKey raws cb s)) = lru s"
proof -
  obtain e s' where run: "addChain_forEach P clock 0 rootKey raws s = (e, s')"
    by (cases "addChain_forEach P clock 0 rootKey raws s")
  have "lru s' = lru s" using lru_addChain_forEach[of P clock 0 rootKey raws s] run by simp
  then show ?thesis by (simp add: addChain_def run split: option.splits)
qed

lemma lru_close [simp]: "lru (close cb s) = lru s"
  by (simp add: close_def)

lemma lru_fold_close [simp]: "lru (fold close q s) = lru s"
  by (induction q arbitrary: s) simp_all

lemma lru_freeDB: "lru (snd (freeDB s)) = lru s"
  by (simp add: freeDB_def Let_def)

lemma lru_on_data [simp]: "lru (snd (on_data P r parent s)) = lru s"
  by (simp add: on_data_def addMemLink_def split: option.splits)

lemma cache_short_replay:
  "0 < M \<Longrightarrow> cache_short M (lru s) \<Longrightarrow> cache_short M (lru (replay M clock i q s))"
  by (induction M clock i q s rule: replay.induct) (auto dest: getChain_short)

lemma reachable_cache_short: "reachable P M s \<Longrightarrow> 0 < M \<Longrightarrow> cache_short M (lru s)"
proof (induction rule: reachable.induct)
  case (r_new pk)
  show ?case by (simp add: cache_short_def Trust_def load_def useDB_def)
next
  case (r_getChain s now rootKey cb)
  then show ?case using getChain_short by blast
next
  case (r_end s s1 clock j)
  have "lru s1 = lru (completed ReadStream s)"
    using lru_freeDB[of "completed ReadStream s"] unfolding r_end.hyps(3) by simp
  then have "lru s1 = lru s" by (simp add: completed_def)
  with r_end have "cache_short M (lru (s1\<lparr>ready := True, queue := []\<rparr>))" by simp
  with r_end.prems show ?case by (intro cache_short_replay)
qed (simp_all add: on_error_def on_put_def on_del_def completed_def lru_freeDB)

text \<open>
  C5: in every state the engine can reach, a chain that \<open>getChain\<close> hands to its callback
  has at most \<open>MAX_CHAIN_LENGTH\<close> links. The constant is a parameter of the model (its
  package is not part of the sources) and is taken to be positive: the search extends
  only chains shorter than it, by one link.
\<close>

theorem getChain_length_bounded:
  assumes "reachable parseLink M s" and "0 < M"
    and "ticks (getChain M now rootKey cb s) = ticks s @ [Call cb None (Some chain)]"
  shows "length chain \<le> M"
  using getChain_short[OF assms(2) reachable_cache_short[OF assms(1,2)], of now rootKey cb] assms(3)
  by blast

theorem getChain_length_bounded_witness:
  "ticks (getChain 5 1000 ''R'' 2 demo_short) = ticks demo_short @ [Call 2 None (Some [''R>C'', ''C>L''])]
   \<and> length [''R>C'', ''C>L''] \<le> (5::nat)"
proof -
  have r: "reachable parse_demo 5 demo_short"
    unfolding demo_short_def by (intro r_addChain reachable_demo_ready)
  have t: "ticks (getChain 5 1000 ''R'' 2 demo_short)
      = ticks demo_short @ [Call 2 None (Some [''R>C'', ''C>L''])]"
    by (simp add: demo_short_def demo_ready_eq eval_defs)
  from getChain_length_bounded[OF r _ t] t show ?thesis by simp
qed

subsection \<open>Queries before the index is loaded\<close>

lemma same_frame_getChain_resolve:
  "same_frame s (getChain_resolve M now rootKey cb s\<lparr>ticks := ticks s\<rparr>)"
proof (cases rule: getChain_resolve_cases[of M now rootKey s cb])
  case (found chain s')
  from same_frame_while_queue[OF found(1)] found(2) show ?thesis by (simp add: same_frame_def)
next
  case (nopath s')
  from same_frame_while_queue[OF nopath(1)] nopath(2) show ?thesis by (simp add: same_frame_def)
qed

lemma ticks_getChain_resolve:
  "\<exists>e c. ticks (getChain_resolve M now rootKey cb s) = ticks s @ [Call cb e c]"
  by (cases rule: getChain_resolve_cases[of M now rootKey s cb]) simp_all

lemma getChain_frame:
  "same_frame (s\<lparr>queue := queue (getChain M now rootKey cb s)\<rparr>)
     (getChain M now rootKey cb s\<lparr>ticks := ticks s\<rparr>)"
proof -
  have res: "same_frame (s\<lparr>queue := queue (getChain_resolve M now rootKey cb (s\<lparr>lru := c\<rparr>))\<rparr>)
     (getChain_resolve M now rootKey cb (s\<lparr>lru := c\<rparr>)\<lparr>ticks := ticks s\<rparr>)" for c
    using same_frame_getChain_resolve[where s="s\<lparr>lru := c\<rparr>" and M=M and now=now and rootKey=rootKey and cb=cb]
    by (simp add: same_frame_def)
  show ?thesis
    unfolding getChain_def
    by (auto split: prod.splits option.splits simp: res) (simp_all add: same_frame_def)
qed

lemma getChain_ready:
  assumes "ready s"
  shows "\<exists>e c. ticks (getChain M now rootKey cb s) = ticks s @ [Call cb e c]"
    and "ready (getChain M now rootKey cb s)"
    and "queue (getChain M now rootKey cb s) = queue s"
proof -
  have tk: "\<exists>e c. ticks (getChain_resolve M now rootKey cb (s\<lparr>lru := x\<rparr>)) = ticks s @ [Call cb e c]"
    for x using ticks_getChain_resolve[of M now rootKey cb "s\<lparr>lru := x\<rparr>"] by simp
  show "\<exists>e c. ticks (getChain M now rootKey cb s) = ticks s @ [Call cb e c]"
    using assms unfolding getChain_def by (auto split: prod.splits option.splits simp: tk)
  from getChain_frame[where s=s and M=M and now=now and rootKey=rootKey and cb=cb]
  show "ready (getChain M now rootKey cb s)" using assms by (simp add: same_frame_def)
  have res: "queue (getChain_resolve M now rootKey cb t) = queue t" for t
    using same_frame_getChain_resolve[where s=t and M=M and now=now and rootKey=rootKey and cb=cb] by (simp add: same_frame_def)
  show "queue (getChain M now rootKey cb s) = queue s"
    using assms unfolding getChain_def by (auto split: prod.splits option.splits simp: res)
qed

lemma replay_ready:
  assumes "ready s"
  shows "\<exists>calls. ticks (replay M clock i q s) = ticks s @ calls
                 \<and> map call_callback calls = map snd q"
    and "ready (replay M clock i q s)"
    and "queue (replay M clock i q s) = queue s"
  using assms
proof (induction M clock i q s rule: replay.induct)
  case (1 M clock i s)
  { case 1 show ?case by simp }
  { case 2 then show ?case by simp }
  { case 3 show ?case by simp }
next
  case (2 M clock i rootKey cb q s)
  let ?s1 = "getChain M (clock i) rootKey cb s"
  { case 1
    from getChain_ready[OF 1] obtain e c where
      t1: "ticks ?s1 = ticks s @ [Call cb e c]" and r1: "ready ?s1" by blast
    from "2.IH"(1)[OF r1] obtain calls where
      "ticks (replay M clock (Suc i) q ?s1) = ticks ?s1 @ calls" "map call_callback calls = map snd q"
      by blast
    then have "ticks (replay M clock i ((rootKey, cb) # q) s) = ticks s @ (Call cb e c # calls)
        \<and> map call_callback (Call cb e c # calls) = map snd ((rootKey, cb) # q)"
      by (simp add: t1)
    then show ?case by blast }
  { case 2
    from "2.IH"(2)[OF getChain_ready(2)[OF 2]] show ?case by simp }
  { case 3
    from "2.IH"(3)[OF getChain_ready(2)[OF 3]] getChain_ready(3)[OF 3] show ?case by simp }
qed

lemma loaded_same_load: "same_load s s' \<Longrightarrow> loaded s \<Longrightarrow> loaded s'"
  by (auto simp: same_load_def loaded_def split: if_splits)

lemma same_load_trans: "same_load s s' \<Longrightarrow> same_load s' s'' \<Longrightarrow> same_load s s''"
  by (simp add: same_load_def)

lemma same_load_addLink: "same_load s (addLink now parent r l s)"
  by (simp add: same_load_def addLink_def addMemLink_decoded_def db_put_def useDB_def Let_def)

lemma same_load_addChain_forEach: "same_load s (snd (addChain_forEach P clock i prev raws s))"
proof (induction raws arbitrary: i prev s)
  case Nil
  show ?case by (simp add: same_load_def)
next
  case (Cons r raws)
  show ?case
  proof (cases "P r")
    case None
    then show ?thesis by (simp add: same_load_def)
  next
    case (Some l)
    from same_load_trans[OF same_load_addLink
        Cons[where i="Suc i" and prev="publicKey l" and s="addLink (clock i) prev r l s"]]
    show ?thesis by (simp add: Some)
  qed
qed

lemma same_load_addChain: "same_load s (snd (addChain P clock rootKey raws cb s))"
proof -
  obtain e s' where run: "addChain_forEach P clock 0 rootKey raws s = (e, s')"
    by (cases "addChain_forEach P clock 0 rootKey raws s")
  have "same_load s s'" using same_load_addChain_forEach[of s P clock 0 rootKey raws] run by simp
  then show ?thesis by (auto simp: addChain_def run same_load_def split: option.splits)
qed

lemma same_load_getChain: "same_load s (getChain M now rootKey cb s)"
  using getChain_frame[where s=s and M=M and now=now and rootKey=rootKey and cb=cb]
  by (simp add: same_frame_def same_load_def)

lemma same_load_replay: "same_load s (replay M clock i q s)"
proof (induction M clock i q s rule: replay.induct)
  case (1 M clock i s)
  show ?case by (simp add: same_load_def)
next
  case (2 M clock i rootKey cb q s)
  from same_load_trans[OF same_load_getChain 2] show ?case by simp
qed

lemma same_load_close: "same_load s (close cb s)"
  by (simp add: same_load_def close_def)

lemma same_load_fold_close: "same_load s (fold close q s)"
proof (induction q arbitrary: s)
  case Nil
  show ?case by (simp add: same_load_def)
next
  case (Cons cb q)
  from same_load_trans[OF same_load_close Cons] show ?case by simp
qed

lemma freeDB_frame:
  "same_load s (snd (freeDB s))" "ticks (snd (freeDB s)) = ticks s" "queue (snd (freeDB s)) = queue s"
proof -
  let ?s1 = "s\<lparr>dbUsed := dbUsed s - 1, dbQueue := []\<rparr>"
  have a: "same_load ?s1 (fold close (dbQueue s) ?s1)" by (rule same_load_fold_close)
  then show "same_load s (snd (freeDB s))"
    by (auto simp: freeDB_def Let_def same_load_def)
  have "ticks (fold close q t) = ticks t \<and> queue (fold close q t) = queue t" for q t
    by (induction q arbitrary: t) (simp_all add: close_def)
  then show "ticks (snd (freeDB s)) = ticks s" "queue (snd (freeDB s)) = queue s"
    by (simp_all add: freeDB_def Let_def)
qed

lemma same_load_on_data: "same_load s (snd (on_data P r parent s))"
  by (simp add: on_data_def addMemLink_def addMemLink_decoded_def same_load_def Let_def
        split: option.splits)

lemma loaded_completed: "loaded s \<Longrightarrow> loaded (completed op s)"
proof -
  have "length (filter (\<lambda>op. op = ReadStream) (remove1 op xs))
          \<le> length (filter (\<lambda>op. op = ReadStream) xs)" for xs
    by (induction xs) auto
  moreover assume "loaded s"
  ultimately show ?thesis
    using order_trans by (fastforce simp: loaded_def completed_def)
qed

lemma loaded_stream_done:
  assumes "loaded s" and "ReadStream \<in> set (inflight s)"
  shows "\<not> ready s" and "filter (\<lambda>op. op = ReadStream) (inflight (completed ReadStream s)) = []"
proof -
  from assms(2) have ne: "filter (\<lambda>op. op = ReadStream) (inflight s) \<noteq> []"
    by (simp add: filter_empty_conv)
  with assms(1) show nr: "\<not> ready s" by (auto simp: loaded_def)
  with assms(1) have le: "length (filter (\<lambda>op. op = ReadStream) (inflight s)) \<le> 1"
    by (simp add: loaded_def)
  have "length (filter (\<lambda>op. op = ReadStream) (remove1 ReadStream xs))
          = length (filter (\<lambda>op. op = ReadStream) xs) - 1" if "ReadStream \<in> set xs" for xs
    using that by (induction xs) auto
  from this[OF assms(2)] le
  show "filter (\<lambda>op. op = ReadStream) (inflight (completed ReadStream s)) = []"
    by (simp add: completed_def)
qed

lemma reachable_loaded: "reachable P M s \<Longrightarrow> loaded s"
proof (induction rule: reachable.induct)
  case (r_new pk)
  show ?case by (simp add: loaded_def Trust_def load_def useDB_def)
next
  case (r_addChain s clock rootKey raws cb)
  then show ?case using loaded_same_load[OF same_load_addChain] by blast
next
  case (r_getChain s now rootKey cb)
  then show ?case using loaded_same_load[OF same_load_getChain] by blast
next
  case (r_close s cb)
  then show ?case using loaded_same_load[OF same_load_close] by blast
next
  case (r_data s r parent)
  then show ?case using loaded_same_load[OF same_load_on_data] by blast
next
  case (r_end s s1 clock j)
  from loaded_stream_done(2)[OF r_end.IH r_end.hyps(2)] freeDB_frame(1)[of "completed ReadStream s"]
  have "filter (\<lambda>op. op = ReadStream) (inflight s1) = []"
    by (simp add: r_end.hyps(3) same_load_def)
  then have "loaded (s1\<lparr>ready := True, queue := []\<rparr>)" by (simp add: loaded_def)
  then show ?case using loaded_same_load[OF same_load_replay] by blast
next
  case (r_error s)
  from loaded_same_load[OF freeDB_frame(1) loaded_completed[OF r_error.IH]]
  show ?case by (simp add: on_error_def)
next
  case (r_put s r parent)
  from loaded_same_load[OF freeDB_frame(1) loaded_completed[OF r_put.IH]]
  show ?case by (simp add: on_put_def)
next
  case (r_del s r)
  from loaded_same_load[OF freeDB_frame(1) loaded_completed[OF r_del.IH]]
  show ?case by (simp add: on_del_def)
qed

lemma graph_freeDB: "graph (snd (freeDB s)) = graph s"
proof -
  have "graph (fold close q t) = graph t" for q t
    by (induction q arbitrary: t) (simp_all add: close_def)
  then show ?thesis by (simp add: freeDB_def Let_def)
qed

text \<open>The loop of the \<open>'end'\<close> handler runs \<open>getChain\<close> on each queued query, with the
  root and the callback of that query, one after the other.\<close>

lemma replay_fold:
  "replay M clock i q s
     = fold (\<lambda>(j, (rootKey, cb)) st. getChain M (clock j) rootKey cb st) (enumerate i q) s"
  by (induction M clock i q s rule: replay.induct) simp_all

text \<open>
  C8: in every state the engine can reach, a query for a root other than the local key
  made before loading has ended is only appended to the pending queue: no callback is
  scheduled and the index and the cache are not read. When the read stream ends, the
  handler sets \<open>_ready\<close>, empties the queue and executes the queued queries: the state
  it leaves is the one obtained by running \<open>getChain\<close>, with \<open>_ready\<close> set, on the root
  and the callback of each queued query, once each, in arrival order, each run starting
  in the state the run before it left. Each run schedules one call of its own callback.
  Whenever \<open>_ready\<close> is set no read stream is in flight, so no query runs while the index
  is being loaded. (When the stream fails instead, the \<open>'error'\<close> handler leaves the
  queue as it is.)
\<close>

theorem pending_queries_replayed:
  assumes "reachable parseLink M s"
  shows "(rootKey \<noteq> trust_publicKey s \<and> \<not> ready s \<longrightarrow>
            getChain M now rootKey cb s = s\<lparr>queue := queue s @ [(rootKey, cb)]\<rparr>)
       \<and> (ReadStream \<in> set (inflight s) \<longrightarrow>
            (\<exists>s1 calls.
               freeDB (completed ReadStream s) = (None, s1)
               \<and> on_end M clock (completed ReadStream s)
                   = (None,
                      fold (\<lambda>(j, (rootKey, cb)) st. getChain M (clock j) rootKey cb st)
                        (enumerate 0 (queue s)) (s1\<lparr>ready := True, queue := []\<rparr>))
               \<and> graph s1 = graph s \<and> lru s1 = lru s
               \<and> ticks (snd (on_end M clock (completed ReadStream s))) = ticks s @ calls
               \<and> map call_callback calls = map snd (queue s)
               \<and> queue (snd (on_end M clock (completed ReadStream s))) = []
               \<and> ready (snd (on_end M clock (completed ReadStream s)))
               \<and> ReadStream \<notin> set (inflight (snd (on_end M clock (completed ReadStream s))))))
       \<and> (ready s \<longrightarrow> ReadStream \<notin> set (inflight s))"
proof (intro conjI impI)
  assume "rootKey \<noteq> trust_publicKey s \<and> \<not> ready s"
  then show "getChain M now rootKey cb s = s\<lparr>queue := queue s @ [(rootKey, cb)]\<rparr>"
    by (simp add: getChain_def)
next
  assume "ready s"
  with reachable_loaded[OF assms] show "ReadStream \<notin> set (inflight s)"
    by (auto simp: loaded_def filter_empty_conv)
next
  assume inf: "ReadStream \<in> set (inflight s)"
  let ?c = "completed ReadStream s"
  obtain e s1 where f: "freeDB ?c = (e, s1)" by (cases "freeDB ?c")
  from freeDB_complete(1)[OF reachable_balanced[OF assms] inf] f have e: "e = None" by simp
  let ?s2 = "s1\<lparr>ready := True, queue := []\<rparr>"
  let ?r = "replay M clock 0 (queue s) ?s2"
  let ?f = "fold (\<lambda>(j, (rootKey, cb)) st. getChain M (clock j) rootKey cb st)
              (enumerate 0 (queue s)) ?s2"
  from freeDB_frame[of ?c] f
  have fr: "ticks s1 = ticks s" "queue s1 = queue s"
    "filter (\<lambda>op. op = ReadStream) (inflight s1) = filter (\<lambda>op. op = ReadStream) (inflight ?c)"
    by (simp_all add: completed_def same_load_def)
  have gl: "graph s1 = graph s" "lru s1 = lru s"
    using lru_freeDB[of ?c] graph_freeDB[of ?c] f by (simp_all add: completed_def)
  have rf: "?r = ?f" by (rule replay_fold)
  have on: "on_end M clock ?c = (None, ?f)"
    by (simp add: on_end_def f e fr rf)
  have rdy: "ready ?s2" by simp
  from replay_ready(1)[OF rdy, of M clock 0 "queue s"] obtain calls where
    calls: "ticks ?f = ticks s @ calls" "map call_callback calls = map snd (queue s)"
    by (auto simp: fr rf)
  have "filter (\<lambda>op. op = ReadStream) (inflight ?r) = []"
    using same_load_replay[of ?s2 M clock 0 "queue s"]
      loaded_stream_done(2)[OF reachable_loaded[OF assms] inf]
    by (simp add: same_load_def fr)
  then have nostream: "ReadStream \<notin> set (inflight ?f)"
    by (auto simp: filter_empty_conv rf)
  have rq: "queue ?f = []" "ready ?f"
    using replay_ready(2,3)[OF rdy, of M clock 0 "queue s"] by (simp_all add: rf)
  show "\<exists>s1 calls.
               freeDB (completed ReadStream s) = (None, s1)
               \<and> on_end M clock (completed ReadStream s)
                   = (None,
                      fold (\<lambda>(j, (rootKey, cb)) st. getChain M (clock j) rootKey cb st)
                        (enumerate 0 (queue s)) (s1\<lparr>ready := True, queue := []\<rparr>))
               \<and> graph s1 = graph s \<and> lru s1 = lru s
               \<and> ticks (snd (on_end M clock (completed ReadStream s))) = ticks s @ calls
               \<and> map call_callback calls = map snd (queue s)
               \<and> queue (snd (on_end M clock (completed ReadStream s))) = []
               \<and> ready (snd (on_end M clock (completed ReadStream s)))
               \<and> ReadStream \<notin> set (inflight (snd (on_end M clock (completed ReadStream s))))"
    using f e calls nostream rq gl
    by (intro exI[of _ s1] exI[of _ calls]) (simp add: on)
qed

text \<open>A query for \<open>R\<close> made before the stored link from \<open>R\<close> to the local key is loaded
  is queued; the stream then delivers the link and ends, and the queued query is answered
  with the chain of that link.\<close>

theorem pending_queries_replayed_witness:
  "getChain 5 1000 ''R'' 1 (Trust ''L'') = (Trust ''L'')\<lparr>queue := [(''R'', 1)]\<rparr>
   \<and> ticks (snd (on_end 5 (\<lambda>i. 1000) (completed ReadStream
        (snd (on_data parse_demo ''R>L'' ''R'' (getChain 5 1000 ''R'' 1 (Trust ''L'')))))))
       = [Call 1 None (Some [''R>L''])]
   \<and> queue (snd (on_end 5 (\<lambda>i. 1000) (completed ReadStream
        (snd (on_data parse_demo ''R>L'' ''R'' (getChain 5 1000 ''R'' 1 (Trust ''L''))))))) = []"
proof -
  have g: "getChain 5 1000 ''R'' 1 (Trust ''L'') = (Trust ''L'')\<lparr>queue := [(''R'', 1)]\<rparr>"
    using pending_queries_replayed [OF r_new, of "''R''" "''L''" 5 1000 1]
    by (simp add: Trust_def load_def useDB_def)
  have "reachable parse_demo 5
      (snd (on_data parse_demo ''R>L'' ''R'' (getChain 5 1000 ''R'' 1 (Trust ''L''))))"
    by (intro r_data r_getChain r_new) (simp add: getChain_def Trust_def load_def useDB_def)
  from pending_queries_replayed [OF this, of "''R''" 1000 1 "\<lambda>i. 1000"] g
  show ?thesis
    by (simp add: Trust_def load_def useDB_def completed_def on_end_def freeDB_def on_data_def
          addMemLink_def eval_defs)
qed

subsection \<open>A link that fails to decode\<close>

lemma addChain_forEach_malformed:
  assumes "list_all (\<lambda>r. parseLink r \<noteq> None) pre" and "parseLink bad = None"
  shows "addChain_forEach parseLink clock i prev (pre @ bad # post) s
           = (Some MalformedLink, snd (addChain_forEach parseLink clock i prev pre s))
       \<and> fst (addChain_forEach parseLink clock i prev pre s) = None"
  using assms by (induction pre arbitrary: i prev s) (auto split: option.splits)

lemma addChain0_map_malformed:
  assumes "parseLink bad = None"
  shows "addChain0_map parseLink prev (pre @ bad # post) = Inl MalformedLink"
  using assms by (induction pre arbitrary: prev) (auto split: option.splits sum.splits)

text \<open>
  C4, as the code has it: when the codec fails on a link of the batch, \<open>addChain\<close>
  throws. The failing link and all the links after it are not processed, and the
  completion callback is not scheduled. What was indexed before the failure stays
  indexed: \<open>lib/trust.js\<close> decodes each link as it comes to it, and leaves the engine in
  the state that processing the links before the failing one has reached; \<open>part_000\<close>
  decodes the whole batch before it stores any link, and leaves the engine as it was.
\<close>

theorem addChain_stops_at_malformed:
  assumes "list_all (\<lambda>r. parseLink r \<noteq> None) pre" and "parseLink bad = None"
  shows "addChain parseLink clock rootKey (pre @ bad # post) cb s
           = (Some MalformedLink, snd (addChain_forEach parseLink clock 0 rootKey pre s))
       \<and> fst (addChain_forEach parseLink clock 0 rootKey pre s) = None
       \<and> addChain0 parseLink rootKey (pre @ bad # post) cb s0 = (Some MalformedLink, s0)"
  using addChain_forEach_malformed[OF assms, of clock 0 rootKey post s]
    addChain0_map_malformed[where parseLink=parseLink and bad=bad and prev=rootKey
      and pre=pre and post=post] assms(2)
  by (simp add: addChain_def addChain0_def)

theorem addChain_stops_at_malformed_witness:
  "addChain parse_demo (\<lambda>i. 1000) ''R'' ([''R>A''] @ ''??'' # [''B>L'']) (Some 1) demo_ready
     = (Some MalformedLink, snd (addChain_forEach parse_demo (\<lambda>i. 1000) 0 ''R'' [''R>A''] demo_ready))
   \<and> snd (addChain_forEach parse_demo (\<lambda>i. 1000) 0 ''R'' [''R>A''] demo_ready)
     = snd (addChain parse_demo (\<lambda>i. 1000) ''R'' [''R>A''] None demo_ready)
   \<and> addChain0 parse_demo ''R'' ([''R>A''] @ ''??'' # [''B>L'']) (Some 1) demo_store
     = (Some MalformedLink, demo_store)"
  using addChain_stops_at_malformed [of parse_demo "[''R>A'']" "''??''" "\<lambda>i. 1000" "''R''" "[''B>L'']"
      "Some 1" demo_ready demo_store]
  by (simp add: parse_demo_def addChain_def)

text \<open>The claim as stated (only the failing link is dropped and the rest of the batch is
  processed) fails: of a batch of three links whose second does not decode,
  \<open>lib/trust.js\<close> indexes and puts to the store only the first, and \<open>part_000\<close> stores
  none.\<close>

theorem addChain_continues_counterexample:
  "addChain parse_demo (\<lambda>i. 1000) ''R'' [''R>A'', ''??'', ''B>L''] (Some 1) demo_ready
     = (Some MalformedLink,
        demo_ready\<lparr>graph := [(''R'', [(''A'', \<lparr>link = \<lparr>publicKey = ''A'', expiration = Num 2000\<rparr>,
                                             raw = ''R>A''\<rparr>)])],
                    dbUsed := 1, inflight := [Put ''R>A'' ''R'']\<rparr>)
   \<and> addChain0 parse_demo ''R'' [''R>A'', ''??'', ''B>L''] (Some 1)
        \<lparr>trust0_publicKey = ''L'', trust0_lru = [], trust0_db = [], trust0_calls = []\<rparr>
     = (Some MalformedLink,
        \<lparr>trust0_publicKey = ''L'', trust0_lru = [], trust0_db = [], trust0_calls = []\<rparr>)"
  by (simp add: demo_ready_eq eval_defs addChain0_def)

subsection \<open>Replacing the link of an edge\<close>

lemmas eval0_defs = addLink0_def getLink_def getLink_onResult_def putLink_def old_expiration_def
  js_ge_def
  lru_get_def lru_set_def LRU_SIZE_def Map_get_def Let_def parse_demo_def

lemma Map_get_Map_set: "Map_get (Map_set k v m) k = Some v"
  by (induction m) (auto simp: Map_get_def)

text \<open>In \<open>lib/trust.js\<close> a link that is not stale always becomes the stored link of its
  edge, whatever was stored before.\<close>

lemma addLink_always_replaces:
  assumes "\<not> js_le (expiration l) (Num now)"
  shows "Map_get (node_children (addLink now parent r l s) parent) (publicKey l)
           = Some \<lparr>link = l, raw = r\<rparr>"
  using assms
  by (simp add: addLink_def addMemLink_decoded_def node_children_def Map_get_Map_set
        addChild_def db_put_def useDB_def Let_def)

text \<open>In \<open>part_000\<close> a link for the stored edge whose bytes differ from the stored ones
  is always put, with the stored depth: the test for an outdated link never holds.\<close>

lemma addLink0_always_replaces:
  assumes "getLink parseLink signedBy s = (Inr old, s1)"
    and "found_raw old \<noteq> r" and "publicKey (found_link old) = publicKey l"
  shows "addLink0 parseLink signedBy l r s = (None, putLink signedBy r (found_depth old) s1)"
  using assms by (simp add: addLink0_def old_expiration_def js_ge_def)

text \<open>
  C2 does not hold of the code. The index and the store hold the link \<open>R>A\<close> of the edge
  from \<open>R\<close> to \<open>A\<close>, expiring at 2000. At time 1000 a link for the same edge that expires
  earlier (at 1500), and one that expires at the same time with other bytes, each
  replaces it: in \<open>lib/trust.js\<close>, where \<open>addChild\<close> overwrites the entry, and in
  \<open>part_000\<close>, where the comparison reads \<open>old.expiration\<close>, which is undefined.
\<close>

theorem older_link_replaces_stored_link:
  "node_children demo_index ''R''
     = [(''A'', \<lparr>link = \<lparr>publicKey = ''A'', expiration = Num 2000\<rparr>, raw = ''R>A''\<rparr>)]
   \<and> node_children (snd (addChain parse_demo (\<lambda>i. 1000) ''R'' [''R>A early''] None demo_index)) ''R''
     = [(''A'', \<lparr>link = \<lparr>publicKey = ''A'', expiration = Num 1500\<rparr>, raw = ''R>A early''\<rparr>)]
   \<and> node_children (snd (addChain parse_demo (\<lambda>i. 1000) ''R'' [''R>A twin''] None demo_index)) ''R''
     = [(''A'', \<lparr>link = \<lparr>publicKey = ''A'', expiration = Num 2000\<rparr>, raw = ''R>A twin''\<rparr>)]
   \<and> trust0_db demo_store = [(''R'', \<lparr>stored_depth = - 1, stored_raw = ''R>A''\<rparr>)]
   \<and> trust0_db (snd (addLink0 parse_demo ''R'' \<lparr>publicKey = ''A'', expiration = Num 1500\<rparr> ''R>A early''
                        demo_store))
     = [(''R'', \<lparr>stored_depth = - 1, stored_raw = ''R>A early''\<rparr>)]
   \<and> trust0_db (snd (addLink0 parse_demo ''R'' \<lparr>publicKey = ''A'', expiration = Num 2000\<rparr> ''R>A twin''
                        demo_store))
     = [(''R'', \<lparr>stored_depth = - 1, stored_raw = ''R>A twin''\<rparr>)]"
  by (simp add: demo_index_def demo_store_def demo_ready_eq eval_defs eval0_defs)

subsection \<open>A longer and a shorter chain\<close>

text \<open>The search after a chain of three links and then a chain of two were added to an
  empty index, for links that pass the test of the code at every time involved. All the
  ways the keys of the two chains can coincide are covered by evaluating the search.\<close>

lemma long_then_short_search:
  assumes g: "graph s = []" "lru s = []" "ready s" "trust_publicKey s = L"
    and p: "P la = Some ka" "P lb = Some kb" "P lc = Some kc" "P ma = Some na" "P mb = Some nb"
    and to: "publicKey kc = L" "publicKey nb = L"
    and live: "\<not> js_le (expiration ka) (Num (ca 0))" "\<not> js_le (expiration kb) (Num (ca (Suc 0)))"
       "\<not> js_le (expiration kc) (Num (ca (Suc (Suc 0))))"
       "\<not> js_le (expiration na) (Num (cs 0))" "\<not> js_le (expiration nb) (Num (cs (Suc 0)))"
       "\<not> js_le (expiration ka) (Num now)" "\<not> js_le (expiration kb) (Num now)" "\<not> js_le (expiration kc) (Num now)"
       "\<not> js_le (expiration na) (Num now)" "\<not> js_le (expiration nb) (Num now)"
    and M: "2 \<le> M"
  shows "\<exists>chain. ticks (getChain M now R cb
      (snd (addChain P cs R [ma, mb] cbs (snd (addChain P ca R [la, lb, lc] cbl s)))))
     = ticks (snd (addChain P cs R [ma, mb] cbs (snd (addChain P ca R [la, lb, lc] cbl s))))
         @ [Call cb None (Some chain)]
     \<and> length chain \<le> 2"
  using assms
  apply (simp add: addChain_def addLink_def db_put_def useDB_def addMemLink_decoded_def
      Map_get_def Map_has_def addChild_def Let_def split: option.splits)
  apply (auto simp: getChain_def getChain_resolve_def lru_get_def lru_set_def lru_remove_def
      LRU_SIZE_def node_children_def node_removeChild_def removeChild_def Map_delete_def
      while_queue.simps Let_def Map_get_def Map_has_def db_del_def useDB_def
      split: option.splits if_splits)
  done

text \<open>
  C3, as the code has it: on an engine whose index and cache are empty, after a chain of
  three links from the root to the local identity has been added and then a chain of
  two, all links being live at the times of the calls, \<open>getChain\<close> for the root returns
  a chain of at most two links (\<open>MAX_CHAIN_LENGTH\<close> being at least 2). The child added
  last is on top of the stack of the search, so it is searched first.
\<close>

text \<open>In \<open>lib/trust.js\<close> the shorter chain is returned when it was added after the longer
  one: the child added last is on top of the stack of the search, so it is searched
  first.\<close>

lemma long_then_short_returns_short:
  assumes fresh: "graph s = []" "lru s = []" "ready s"
    and long: "parseLink la = Some ka" "parseLink lb = Some kb" "parseLink lc = Some kc"
      "publicKey kc = trust_publicKey s"
    and short: "parseLink ma = Some na" "parseLink mb = Some nb"
      "publicKey nb = trust_publicKey s"
    and live: "unexpired parseLink t [la, lb, lc, ma, mb]"
    and times: "\<forall>i. clockl i \<le> t" "\<forall>i. clocks i \<le> t" "now \<le> t"
    and M: "2 \<le> M"
  shows "\<exists>chain.
      ticks (getChain M now rootKey cb
        (snd (addChain parseLink clocks rootKey [ma, mb] cbs
          (snd (addChain parseLink clockl rootKey [la, lb, lc] cbl s)))))
      = ticks (snd (addChain parseLink clocks rootKey [ma, mb] cbs
          (snd (addChain parseLink clockl rootKey [la, lb, lc] cbl s))))
        @ [Call cb None (Some chain)]
      \<and> length chain \<le> 2"
proof -
  from live long(1-3) short(1,2)
  have e: "js_gt (expiration ka) (Num t)" "js_gt (expiration kb) (Num t)"
    "js_gt (expiration kc) (Num t)" "js_gt (expiration na) (Num t)" "js_gt (expiration nb) (Num t)"
    by (simp_all add: unexpired_def)
  have c: "clockl i \<le> t" "clocks i \<le> t" for i using times by simp_all
  note a = js_gt_earlier
  show ?thesis
    by (rule long_then_short_search[OF fresh refl long(1-3) short(1,2) long(4) short(3)
          a[OF e(1) c(1)] a[OF e(2) c(1)] a[OF e(3) c(1)] a[OF e(4) c(2)] a[OF e(5) c(2)]
          a[OF e(1) times(3)] a[OF e(2) times(3)] a[OF e(3) times(3)]
          a[OF e(4) times(3)] a[OF e(5) times(3)] M])
qed

text \<open>\<open>part_000\<close> returns the chain of two links in both orders: it keeps for the root
  the link to \<open>C\<close>, whose depth is smaller or which it will not give up for a link to a
  signer of unknown depth.\<close>

lemma part_000_returns_short:
  "map_option (trust0_calls \<circ> snd) (getChain0 5 parse_demo 5 (\<lambda>i. 1000) ''R'' 1
      (snd (addChain0 parse_demo ''R'' [''R>C'', ''C>L''] None
        (snd (addChain0 parse_demo ''R'' [''R>A'', ''A>B'', ''B>L''] None
          \<lparr>trust0_publicKey = ''L'', trust0_lru = [], trust0_db = [], trust0_calls = []\<rparr>)))))
     = Some [Call 1 None (Some [''R>C'', ''C>L''])]
   \<and> map_option (trust0_calls \<circ> snd) (getChain0 5 parse_demo 5 (\<lambda>i. 1000) ''R'' 1
      (snd (addChain0 parse_demo ''R'' [''R>A'', ''A>B'', ''B>L''] None
        (snd (addChain0 parse_demo ''R'' [''R>C'', ''C>L''] None
          \<lparr>trust0_publicKey = ''L'', trust0_lru = [], trust0_db = [], trust0_calls = []\<rparr>)))))
     = Some [Call 1 None (Some [''R>C'', ''C>L''])]"
  by (simp add: eval0_defs addChain0_def getChain0_def numeral_eq_Suc)

text \<open>
  C3 does not hold of \<open>lib/trust.js\<close>. On an engine whose index and cache are empty, the
  chain of two links from \<open>R\<close> through \<open>C\<close> to the local key is added and then the chain
  of three links from \<open>R\<close> through \<open>A\<close> and \<open>B\<close>, all live. \<open>getChain\<close> for \<open>R\<close> pops the
  child added last, follows the longer chain and returns its three links, where the
  claim asks for at most two. With the chains added in the other order it returns the two
  links.
\<close>

theorem short_then_long_returns_long:
  "ticks (getChain 5 1000 ''R'' 1
      (snd (addChain parse_demo (\<lambda>i. 1000) ''R'' [''R>A'', ''A>B'', ''B>L''] None
        (snd (addChain parse_demo (\<lambda>i. 1000) ''R'' [''R>C'', ''C>L''] None demo_ready)))))
   = [Call 1 None (Some [''R>A'', ''A>B'', ''B>L''])]
   \<and> unexpired parse_demo 1000 [''R>A'', ''A>B'', ''B>L'', ''R>C'', ''C>L'']
   \<and> \<not> length [''R>A'', ''A>B'', ''B>L''] \<le> (2::nat)
   \<and> ticks (getChain 5 1000 ''R'' 1
      (snd (addChain parse_demo (\<lambda>i. 1000) ''R'' [''R>C'', ''C>L''] None
        (snd (addChain parse_demo (\<lambda>i. 1000) ''R'' [''R>A'', ''A>B'', ''B>L''] None demo_ready)))))
   = [Call 1 None (Some [''R>C'', ''C>L''])]"
  by (simp add: demo_ready_eq eval_defs unexpired_def)

end
